theory Spec2Isabelle
  imports Main
begin

section \<open>C strings and the character functions of walk.c\<close>

text \<open>
  A C string is modelled by the list of its bytes before the terminating NUL; the
  empty list is the string whose first byte is the terminator. A null pointer is
  \<open>None\<close>, a valid pointer to a string is \<open>Some s\<close>. A pointer into a string (the
  result of \<open>strrchr\<close>, \<open>strstr\<close>) is the suffix that starts at that position.
\<close>

definition cstring :: "string \<Rightarrow> bool" where
  "cstring s = (CHR 0x00 \<notin> set s)"

text \<open>\<open>(unsigned char)*s\<close>: the byte a string pointer points at, 0 at the terminator.\<close>

fun byte_at :: "string \<Rightarrow> int" where
  "byte_at [] = 0"
| "byte_at (c # cs) = of_char c"

text \<open>
  \<open>tolower\<close> of \<open><ctype.h>\<close> in the "C" locale (the program never calls
  \<open>setlocale\<close>): the 26 upper-case letters are mapped to lower case, every other value
  is returned unchanged.
\<close>

definition tolower :: "int \<Rightarrow> int" where
  "tolower c = (if 65 \<le> c \<and> c \<le> 90 then c + 32 else c)"

text \<open>The loop and the final return of \<open>strcasecmp_safe\<close> (walk.c, lines 67-73).\<close>

fun strcasecmp_loop :: "string \<Rightarrow> string \<Rightarrow> int" where
  "strcasecmp_loop (a # as) (b # bs) =
     (let c1 = tolower (of_char a); c2 = tolower (of_char b)
      in if c1 \<noteq> c2 then c1 - c2 else strcasecmp_loop as bs)"
| "strcasecmp_loop s1 s2 = tolower (byte_at s1) - tolower (byte_at s2)"

fun strcasecmp_safe :: "string option \<Rightarrow> string option \<Rightarrow> int" where
  "strcasecmp_safe (Some s1) (Some s2) = strcasecmp_loop s1 s2"
| "strcasecmp_safe _ _ = - 1"

text \<open>
  The inner \<open>while\<close> loop of \<open>strstr_case\<close> (lines 84-87): it advances \<open>h\<close> and \<open>n\<close>
  together while both point at equal lower-cased bytes; the value is where \<open>n\<close> stops.
\<close>

fun strstr_case_inner :: "string \<Rightarrow> string \<Rightarrow> string" where
  "strstr_case_inner (h # hs) (n # ns) =
     (if tolower (of_char h) = tolower (of_char n) then strstr_case_inner hs ns else n # ns)"
| "strstr_case_inner h n = n"

text \<open>The outer \<open>for\<close> loop of \<open>strstr_case\<close> (lines 80-92).\<close>

fun strstr_case_loop :: "string \<Rightarrow> string \<Rightarrow> string option" where
  "strstr_case_loop [] needle = None"
| "strstr_case_loop (h # hs) needle =
     (if strstr_case_inner (h # hs) needle = [] then Some (h # hs)
      else strstr_case_loop hs needle)"

fun strstr_case :: "string option \<Rightarrow> string option \<Rightarrow> string option" where
  "strstr_case (Some haystack) (Some needle) =
     (if needle = [] then None else strstr_case_loop haystack needle)"
| "strstr_case _ _ = None"

text \<open>
  \<open>strstr\<close> and \<open>strrchr\<close> belong to the C library, not to walk.c; they are modelled
  from the C standard (ISO C, 7.24.5). \<open>strstr s1 s2\<close> points at the first occurrence
  of \<open>s2\<close> in \<open>s1\<close>, is null when there is none, and is \<open>s1\<close> itself when \<open>s2\<close> has
  length zero. \<open>strrchr s c\<close> points at the last occurrence of \<open>c\<close> in \<open>s\<close>, or is null.
\<close>

fun strstr :: "string \<Rightarrow> string \<Rightarrow> string option" where
  "strstr [] s2 = (if s2 = [] then Some [] else None)"
| "strstr (c # cs) s2 =
     (if take (length s2) (c # cs) = s2 then Some (c # cs) else strstr cs s2)"

fun strrchr :: "string \<Rightarrow> char \<Rightarrow> string option" where
  "strrchr [] c = None"
| "strrchr (x # xs) c =
     (case strrchr xs c of
        Some r \<Rightarrow> Some r
      | None \<Rightarrow> if x = c then Some (x # xs) else None)"

text \<open>
  \<open>basename = strrchr(filename, '/'); basename = basename ? basename + 1 : filename;\<close>
  (lines 198-199 and 288-289).
\<close>

definition basename :: "string \<Rightarrow> string" where
  "basename filename =
     (case strrchr filename CHR ''/'' of Some r \<Rightarrow> tl r | None \<Rightarrow> filename)"

text \<open>
  \<open>matches_pattern\<close> (lines 194-209); the C \<open>int\<close> result 0/1 is a \<open>bool\<close>.
  \<open>pattern[0] == '*' && pattern[1] == '.'\<close> says that the first two bytes of the
  pattern are \<open>*.\<close>, and \<open>pattern + 2\<close> is what follows them.
\<close>

fun matches_pattern :: "string option \<Rightarrow> string option \<Rightarrow> bool" where
  "matches_pattern (Some filename) (Some pattern) =
     (if pattern = [] then True
      else if take 2 pattern = ''*.'' then
        (case strrchr (basename filename) CHR ''.'' of
           None \<Rightarrow> False
         | Some ext \<Rightarrow> strcasecmp_safe (Some (tl ext)) (Some (drop 2 pattern)) = 0)
      else strcasecmp_safe (Some (basename filename)) (Some pattern) = 0)"
| "matches_pattern _ _ = False"

section \<open>Options, statistics and the environment\<close>

definition MAX_PATH :: nat where
  "MAX_PATH = 4096"

definition MAX_LINE :: nat where
  "MAX_LINE = 2048"

definition newline :: char where
  "newline = CHR 0x0A"

text \<open>
  \<open>SearchOptions\<close> (lines 20-35). The array \<open>keywords\<close> (here \<open>keywords_arr\<close>) with its \<open>keyword_count\<close> is
  the list of the first \<open>keyword_count\<close> entries; the \<open>int\<close> flags, only ever tested
  for being non-zero, are \<open>bool\<close>.
\<close>

record SearchOptions =
  keywords_arr :: "string list"
  case_sensitive :: bool
  recursive :: bool
  search_filenames :: bool
  search_content :: bool
  show_line_numbers :: bool
  max_depth :: int
  only_matching_files :: bool
  count_only :: bool
  min_size :: int
  max_size :: int
  file_pattern :: string
  start_dir :: string

text \<open>
  \<open>SearchStats\<close> (lines 44-50), the fields holding the values of the C \<open>long\<close>s.
  \<open>total_size\<close> grows by whole file sizes and is kept in the range of a 64-bit
  \<open>long\<close> by \<open>add_total_size\<close> below. The other three counters start at 0 in
  \<open>main\<close> and grow by 1 for each file or match, so that they stay far from the end
  of that range; they are incremented as integers.
\<close>

record SearchStats =
  files_searched :: int
  files_matched :: int
  total_matches :: int
  total_size :: int
  start_time :: int

text \<open>
  What a call changes: the statistics it is given by reference, and standard output,
  the list of the texts written by the \<open>printf\<close> calls, oldest first.
\<close>

record run =
  stats :: SearchStats
  stdout :: "string list"

text \<open>
  The file system as the program sees it through its calls. \<open>fopen\<close> of a path fails
  (\<open>None\<close>) or gives a file: whether \<open>fstat\<close> on it succeeds, the \<open>st_size\<close> it
  reports, and the bytes that reading delivers. \<open>lstat\<close> fails or gives the type of
  the entry itself (a symbolic link is not followed). \<open>opendir\<close> fails or gives the
  names that \<open>readdir\<close> returns, in order.
\<close>

record open_file =
  fstat_ok :: bool
  st_size :: int
  bytes :: string

datatype file_type = S_IFDIR | S_IFREG | S_IFLNK | S_IFOTHER

record filesystem =
  fopen :: "string \<Rightarrow> open_file option"
  lstat :: "string \<Rightarrow> file_type option"
  opendir :: "string \<Rightarrow> string list option"

section \<open>Output and counters\<close>

definition printf :: "string \<Rightarrow> run \<Rightarrow> run" where
  "printf text st = st\<lparr>stdout := stdout st @ [text]\<rparr>"

text \<open>
  The value of a sum in a signed machine integer of 64 bits (\<open>long\<close> on the LP64
  platforms that offer the POSIX calls of this program) and of 32 bits (\<open>int\<close>), as
  two's complement arithmetic delivers it: the sum itself when it is in range, wrapped
  around otherwise.
\<close>

definition wrap_long :: "int \<Rightarrow> int" where
  "wrap_long x = (x + 2 ^ 63) mod 2 ^ 64 - 2 ^ 63"

definition wrap_int :: "int \<Rightarrow> int" where
  "wrap_int x = (x + 2 ^ 31) mod 2 ^ 32 - 2 ^ 31"

text \<open>\<open>stats->total_size += st.st_size\<close> (line 222).\<close>

definition add_total_size :: "int \<Rightarrow> run \<Rightarrow> run" where
  "add_total_size n st =
     st\<lparr>stats := (stats st)\<lparr>total_size := wrap_long (total_size (stats st) + n)\<rparr>\<rparr>"

definition inc_files_searched :: "run \<Rightarrow> run" where
  "inc_files_searched st =
     st\<lparr>stats := (stats st)\<lparr>files_searched := files_searched (stats st) + 1\<rparr>\<rparr>"

definition inc_files_matched :: "run \<Rightarrow> run" where
  "inc_files_matched st =
     st\<lparr>stats := (stats st)\<lparr>files_matched := files_matched (stats st) + 1\<rparr>\<rparr>"

definition inc_total_matches :: "run \<Rightarrow> run" where
  "inc_total_matches st =
     st\<lparr>stats := (stats st)\<lparr>total_matches := total_matches (stats st) + 1\<rparr>\<rparr>"

text \<open>The conversion \<open>%d\<close> of \<open>printf\<close>.\<close>

definition digit :: "nat \<Rightarrow> char" where
  "digit n = ''0123456789'' ! (n mod 10)"

function string_of_nat :: "nat \<Rightarrow> string" where
  "string_of_nat n =
     (if n < 10 then [digit n] else string_of_nat (n div 10) @ [digit n])"
  by pat_completeness auto
termination
  by (relation "measure (\<lambda>n. n)") auto

declare string_of_nat.simps [simp del]

definition string_of_int :: "int \<Rightarrow> string" where
  "string_of_int i =
     (if i < 0 then CHR ''-'' # string_of_nat (nat (- i)) else string_of_nat (nat i))"

text \<open>The two formats of a content match (lines 266-270).\<close>

definition content_record :: "SearchOptions \<Rightarrow> string \<Rightarrow> int \<Rightarrow> string \<Rightarrow> string" where
  "content_record opts filename line_number line =
     (if show_line_numbers opts
      then filename @ '':'' @ string_of_int line_number @ '':'' @ line @ [newline]
      else filename @ '':'' @ line @ [newline])"

definition filename_record :: "string \<Rightarrow> string" where
  "filename_record filename = ''Filename match: '' @ filename @ [newline]"

definition path_record :: "string \<Rightarrow> string" where
  "path_record filename = filename @ [newline]"

section \<open>Reading lines\<close>

text \<open>
  One call \<open>fgets(line, n, file)\<close> with \<open>k = n - 1\<close>: it stores at most \<open>k\<close> bytes and
  stops after a newline or at the end of the file. The value is the bytes stored and
  the bytes left in the file.
\<close>

fun fgets_bytes :: "nat \<Rightarrow> string \<Rightarrow> string \<times> string" where
  "fgets_bytes k [] = ([], [])"
| "fgets_bytes k (b # bs) =
     (if k = 0 then ([], b # bs)
      else if b = newline then ([b], bs)
      else (case fgets_bytes (k - 1) bs of (buf, rest) \<Rightarrow> (b # buf, rest)))"

text \<open>
  The buffers that the successive calls \<open>fgets(line, sizeof(line), file)\<close> of the
  loop at line 245 deliver until \<open>fgets\<close> returns null at the end of the file.
\<close>

function read_lines :: "string \<Rightarrow> string list" where
  "read_lines bs =
     (if bs = [] then []
      else (case fgets_bytes (MAX_LINE - 1) bs of (buf, rest) \<Rightarrow> buf # read_lines rest))"
  by pat_completeness auto
termination
proof (relation "measure length")
  show "wf (measure length)" by simp
next
  fix bs :: string and buf rest
  assume ne: "bs \<noteq> []" and br: "(buf, rest) = fgets_bytes (MAX_LINE - 1) bs"
  have shorter: "0 < k \<Longrightarrow> cs \<noteq> [] \<Longrightarrow> length (snd (fgets_bytes k cs)) < length cs"
    for k and cs :: string
  proof (induction k cs rule: fgets_bytes.induct)
    case (1 k)
    then show ?case by simp
  next
    case (2 k b bs)
    show ?case
    proof (cases "b = newline")
      case True
      with 2 show ?thesis by simp
    next
      case False
      show ?thesis
      proof (cases "k - 1 = 0 \<or> bs = []")
        case True
        with False 2 show ?thesis
          by (cases bs) (auto split: prod.splits)
      next
        case False2: False
        with False 2 have "length (snd (fgets_bytes (k - 1) bs)) < length bs"
          by simp
        with False 2 show ?thesis
          by (auto split: prod.splits)
      qed
    qed
  qed
  from br have "rest = snd (fgets_bytes (MAX_LINE - 1) bs)"
    by (metis snd_conv)
  with shorter [of "MAX_LINE - 1" bs] ne
  show "(rest, bs) \<in> measure length"
    by (simp add: MAX_LINE_def)
qed

declare read_lines.simps [simp del]

text \<open>
  The buffer as the string functions see it: a NUL byte read from the file ends the
  string. \<open>line[strcspn(line, "\n")] = '\0'\<close> (line 249) then cuts it at the first
  newline.
\<close>

definition c_str :: "string \<Rightarrow> string" where
  "c_str buf = takeWhile (\<lambda>c. c \<noteq> CHR 0x00) buf"

definition chomp :: "string \<Rightarrow> string" where
  "chomp buf = takeWhile (\<lambda>c. c \<noteq> newline) (c_str buf)"

section \<open>The file scanner\<close>

text \<open>
  The test of one keyword against a text (lines 255-261 and 294-300): \<open>strstr\<close> when
  the search is case sensitive, \<open>strstr_case\<close> otherwise; \<open>found\<close> is whether the
  pointer is non-null.
\<close>

definition found :: "SearchOptions \<Rightarrow> string \<Rightarrow> string \<Rightarrow> bool" where
  "found opts text kw =
     (if case_sensitive opts then strstr text kw \<noteq> None
      else strstr_case (Some text) (Some kw) \<noteq> None)"

text \<open>
  How the content search leaves: \<open>Returned st\<close> when \<open>search_file\<close> returned 1 from
  inside the loops (line 277), \<open>Finished m st\<close> when the loop ran to its end with
  \<open>match_in_file = m\<close>.
\<close>

datatype scan = Returned run | Finished bool run

text \<open>The \<open>for\<close> loop over the keywords for one line (lines 252-280).\<close>

fun keyword_loop ::
  "SearchOptions \<Rightarrow> string \<Rightarrow> int \<Rightarrow> string \<Rightarrow> string list \<Rightarrow> bool \<Rightarrow> run \<Rightarrow> scan" where
  "keyword_loop opts filename line_number line [] match_in_file st = Finished match_in_file st"
| "keyword_loop opts filename line_number line (kw # kws) match_in_file st =
     (if found opts line kw then
        (let st1 = inc_total_matches st;
             st2 = (if \<not> count_only opts \<and> \<not> only_matching_files opts
                    then printf (content_record opts filename line_number line) st1
                    else st1)
         in if only_matching_files opts then Returned (inc_files_matched st2)
            else keyword_loop opts filename line_number line kws True st2)
      else keyword_loop opts filename line_number line kws match_in_file st)"

text \<open>
  The \<open>while\<close> loop over the lines (lines 245-281), given the buffers that \<open>fgets\<close>
  delivers; \<open>line_number\<close> is the value of the \<open>int\<close> counter before the line is
  read, and \<open>line_number++\<close> (line 246) is an addition in \<open>int\<close>.
\<close>

fun line_loop ::
  "SearchOptions \<Rightarrow> string \<Rightarrow> int \<Rightarrow> string list \<Rightarrow> bool \<Rightarrow> run \<Rightarrow> scan" where
  "line_loop opts filename line_number [] match_in_file st = Finished match_in_file st"
| "line_loop opts filename line_number (buf # bufs) match_in_file st =
     (case keyword_loop opts filename (wrap_int (line_number + 1)) (chomp buf)
             (keywords_arr opts) match_in_file st of
        Returned st' \<Rightarrow> Returned st'
      | Finished m st' \<Rightarrow> line_loop opts filename (wrap_int (line_number + 1)) bufs m st')"

text \<open>
  The \<open>for\<close> loop over the keywords for the file name (lines 291-310): \<open>Some st\<close> when
  it returned 1 at the first keyword found, \<open>None\<close> when it ran to its end.
\<close>

fun filename_loop :: "SearchOptions \<Rightarrow> string \<Rightarrow> string list \<Rightarrow> run \<Rightarrow> run option" where
  "filename_loop opts filename [] st = None"
| "filename_loop opts filename (kw # kws) st =
     (if found opts (basename filename) kw then
        (let st1 = inc_files_matched (inc_total_matches st)
         in Some (if \<not> count_only opts then printf (filename_record filename) st1 else st1))
      else filename_loop opts filename kws st)"

text \<open>
  The part of \<open>search_file\<close> after the filters (lines 237-320), for the buffers
  that \<open>fgets\<close> delivers from the open file: the value returned and the state left.
\<close>

definition scan_file :: "SearchOptions \<Rightarrow> string \<Rightarrow> string list \<Rightarrow> run \<Rightarrow> bool \<times> run" where
  "scan_file opts filename bufs st =
     (let st2 = inc_files_searched st
      in case (if search_content opts then line_loop opts filename 0 bufs False st2
               else Finished False st2) of
           Returned st3 \<Rightarrow> (True, st3)
         | Finished match_in_file st3 \<Rightarrow>
             (case (if search_filenames opts \<and> \<not> match_in_file
                    then filename_loop opts filename (keywords_arr opts) st3
                    else None) of
                Some st4 \<Rightarrow> (True, st4)
              | None \<Rightarrow>
                  if match_in_file then
                    (True,
                     (let st4 = inc_files_matched st3
                      in if only_matching_files opts \<and> \<not> count_only opts
                         then printf (path_record filename) st4 else st4))
                  else (False, st3)))"

text \<open>
  \<open>search_file\<close> (lines 212-321): opening the file, the size filter applied when
  \<open>fstat\<close> succeeds, the pattern filter, then the scan.
\<close>

definition search_file :: "filesystem \<Rightarrow> string \<Rightarrow> SearchOptions \<Rightarrow> run \<Rightarrow> bool \<times> run" where
  "search_file fs filename opts st =
     (case fopen fs filename of
        None \<Rightarrow> (False, st)
      | Some f \<Rightarrow>
          (let st1 = (if fstat_ok f then add_total_size (st_size f) st else st)
           in if fstat_ok f \<and>
                 ((min_size opts > 0 \<and> st_size f < min_size opts) \<or>
                  (max_size opts \<ge> 0 \<and> st_size f > max_size opts))
              then (False, st1)
              else if file_pattern opts \<noteq> [] \<and>
                      \<not> matches_pattern (Some filename) (Some (file_pattern opts))
              then (False, st1)
              else scan_file opts filename (read_lines (bytes f)) st1))"

section \<open>The directory walker\<close>

text \<open>
  \<open>search_directory\<close> (lines 324-373) and its \<open>while\<close> loop over the entries that
  \<open>readdir\<close> returns (lines 341-370). A null \<open>path\<close> is \<open>None\<close>. Every recursive
  call is made on a strictly longer path that passed the length test of line 348, so
  the recursion ends whatever the file system answers.
\<close>

function search_directory ::
    "filesystem \<Rightarrow> string option \<Rightarrow> int \<Rightarrow> SearchOptions \<Rightarrow> run \<Rightarrow> run"
  and walk_entries ::
    "filesystem \<Rightarrow> string \<Rightarrow> int \<Rightarrow> SearchOptions \<Rightarrow> string list \<Rightarrow> run \<Rightarrow> run" where
  "search_directory fs None depth opts st = st"
| "search_directory fs (Some path) depth opts st =
     (if max_depth opts \<ge> 0 \<and> depth > max_depth opts then st
      else
        (case opendir fs path of
           None \<Rightarrow> st
         | Some names \<Rightarrow> walk_entries fs path depth opts names st))"
| "walk_entries fs path depth opts [] st = st"
| "walk_entries fs path depth opts (d_name # names) st =
     (if d_name = ''.'' \<or> d_name = ''..'' then walk_entries fs path depth opts names st
      else if length path + length d_name + 2 > MAX_PATH
      then walk_entries fs path depth opts names st
      else
        (let fullpath = path @ ''/'' @ d_name
         in case lstat fs fullpath of
              None \<Rightarrow> walk_entries fs path depth opts names st
            | Some mode \<Rightarrow>
                if mode = S_IFDIR then
                  (if recursive opts
                   then walk_entries fs path depth opts names
                          (search_directory fs (Some fullpath) (depth + 1) opts st)
                   else walk_entries fs path depth opts names st)
                else if mode = S_IFREG then
                  walk_entries fs path depth opts names
                    (snd (search_file fs fullpath opts st))
                else walk_entries fs path depth opts names st))"
  by pat_completeness auto
termination
  by (relation "measures
        [\<lambda>x. case x of
               Inl (fs, p, depth, opts, st) \<Rightarrow>
                 (case p of None \<Rightarrow> 0 | Some path \<Rightarrow> MAX_PATH - length path)
             | Inr (fs, path, depth, opts, names, st) \<Rightarrow> MAX_PATH - length path,
         \<lambda>x. case x of Inl _ \<Rightarrow> 1 | Inr _ \<Rightarrow> 0,
         \<lambda>x. case x of Inl _ \<Rightarrow> 0 | Inr (fs, path, depth, opts, names, st) \<Rightarrow> length names]")
     auto

section \<open>Notions of the specification\<close>

text \<open>
  The pattern matcher as the specification words it: the basename is what follows
  the last path separator, the extension what follows the last dot of the basename,
  and two strings are equal case-insensitively when they agree after lower-casing.
\<close>

definition lower_string :: "string \<Rightarrow> int list" where
  "lower_string s = map (\<lambda>c. tolower (of_char c)) s"

definition eq_nocase :: "string \<Rightarrow> string \<Rightarrow> bool" where
  "eq_nocase a b = (lower_string a = lower_string b)"

definition spec_basename :: "string \<Rightarrow> string" where
  "spec_basename filename = rev (takeWhile (\<lambda>c. c \<noteq> CHR ''/'') (rev filename))"

definition spec_extension :: "string \<Rightarrow> string option" where
  "spec_extension name =
     (if CHR ''.'' \<in> set name then Some (rev (takeWhile (\<lambda>c. c \<noteq> CHR ''.'') (rev name)))
      else None)"

definition spec_matches :: "string \<Rightarrow> string \<Rightarrow> bool" where
  "spec_matches filename pattern =
     (if pattern = [] then True
      else if take 2 pattern = ''*.'' then
        (case spec_extension (spec_basename filename) of
           None \<Rightarrow> False
         | Some e \<Rightarrow> eq_nocase e (drop 2 pattern))
      else eq_nocase (spec_basename filename) pattern)"

text \<open>
  The scanner in the words of the specification: how many of the configured keywords
  occur in a line, whether some line of the content or the basename contains some
  keyword, the two filters, and what the matches of a line add to the state.
\<close>

definition line_hits :: "SearchOptions \<Rightarrow> string \<Rightarrow> nat" where
  "line_hits opts line = length (filter (found opts line) (keywords_arr opts))"

definition content_match :: "SearchOptions \<Rightarrow> string list \<Rightarrow> bool" where
  "content_match opts bufs =
     list_ex (\<lambda>buf. list_ex (found opts (chomp buf)) (keywords_arr opts)) bufs"

definition filename_match :: "SearchOptions \<Rightarrow> string \<Rightarrow> bool" where
  "filename_match opts filename = list_ex (found opts (basename filename)) (keywords_arr opts)"

definition size_rejected :: "SearchOptions \<Rightarrow> open_file \<Rightarrow> bool" where
  "size_rejected opts f =
     (fstat_ok f \<and>
      ((min_size opts > 0 \<and> st_size f < min_size opts) \<or>
       (max_size opts \<ge> 0 \<and> st_size f > max_size opts)))"

definition pattern_rejected :: "SearchOptions \<Rightarrow> string \<Rightarrow> bool" where
  "pattern_rejected opts filename =
     (file_pattern opts \<noteq> [] \<and> \<not> matches_pattern (Some filename) (Some (file_pattern opts)))"

definition add_hits :: "SearchOptions \<Rightarrow> string \<Rightarrow> int \<Rightarrow> string \<Rightarrow> nat \<Rightarrow> run \<Rightarrow> run" where
  "add_hits opts filename line_number line k st =
     st\<lparr>stats := (stats st)\<lparr>total_matches := total_matches (stats st) + int k\<rparr>,
        stdout := stdout st @
          (if count_only opts then []
           else replicate k (content_record opts filename line_number line))\<rparr>"

fun scan_lines :: "SearchOptions \<Rightarrow> string \<Rightarrow> int \<Rightarrow> string list \<Rightarrow> run \<Rightarrow> run" where
  "scan_lines opts filename line_number [] st = st"
| "scan_lines opts filename line_number (buf # bufs) st =
     scan_lines opts filename (wrap_int (line_number + 1)) bufs
       (add_hits opts filename (wrap_int (line_number + 1)) (chomp buf)
          (line_hits opts (chomp buf)) st)"

definition searched_state :: "open_file \<Rightarrow> run \<Rightarrow> run" where
  "searched_state f st =
     inc_files_searched (if fstat_ok f then add_total_size (st_size f) st else st)"

definition print_filename_match :: "SearchOptions \<Rightarrow> string \<Rightarrow> run \<Rightarrow> run" where
  "print_filename_match opts filename st =
     (if count_only opts then st else printf (filename_record filename) st)"

text \<open>
  The content matches of a whole file in the words of the specification: every line
  contributes as many matches as configured keywords occur in it, and as many records
  of that line, numbered from 1 in the order of the file.
\<close>

definition total_hits :: "SearchOptions \<Rightarrow> string list \<Rightarrow> nat" where
  "total_hits opts bufs = sum_list (map (\<lambda>buf. line_hits opts (chomp buf)) bufs)"

fun line_records :: "SearchOptions \<Rightarrow> string \<Rightarrow> nat \<Rightarrow> string list \<Rightarrow> string list" where
  "line_records opts filename n [] = []"
| "line_records opts filename n (buf # bufs) =
     replicate (line_hits opts (chomp buf))
       (content_record opts filename (int n + 1) (chomp buf)) @
     line_records opts filename (Suc n) bufs"

text \<open>
  The walker in the words of the specification: an entry is scanned when it is not a
  pseudo-entry, its path fits and \<open>lstat\<close> says it is a regular file; it is a
  subdirectory when \<open>lstat\<close> says it is a directory. \<open>scan_regular_files\<close> scans
  the regular files among the entries of one directory, in order, and enters nothing.
\<close>

definition entry_path :: "string \<Rightarrow> string \<Rightarrow> string" where
  "entry_path path d_name = path @ ''/'' @ d_name"

definition entry_type :: "filesystem \<Rightarrow> string \<Rightarrow> string \<Rightarrow> file_type option" where
  "entry_type fs path d_name =
     (if d_name = ''.'' \<or> d_name = ''..'' then None
      else if length path + length d_name + 2 > MAX_PATH then None
      else lstat fs (entry_path path d_name))"

fun scan_regular_files ::
  "filesystem \<Rightarrow> string \<Rightarrow> SearchOptions \<Rightarrow> string list \<Rightarrow> run \<Rightarrow> run" where
  "scan_regular_files fs path opts [] st = st"
| "scan_regular_files fs path opts (d_name # names) st =
     scan_regular_files fs path opts names
       (if entry_type fs path d_name = Some S_IFREG
        then snd (search_file fs (entry_path path d_name) opts st) else st)"

text \<open>
  Two file systems look alike to a walker that does not follow links when \<open>lstat\<close>
  answers the same on every path, regular files open alike and directories list
  alike; what opening a symbolic link (or anything else) would give may differ.
\<close>

definition same_without_links :: "filesystem \<Rightarrow> filesystem \<Rightarrow> bool" where
  "same_without_links fs fs' =
     (\<forall>p. lstat fs' p = lstat fs p \<and>
          (lstat fs p = Some S_IFREG \<longrightarrow> fopen fs' p = fopen fs p) \<and>
          (lstat fs p = Some S_IFDIR \<longrightarrow> opendir fs' p = opendir fs p))"

section \<open>Worked environments\<close>

text \<open>The defaults set by \<open>init_options\<close> (lines 96-111).\<close>

definition init_options :: SearchOptions where
  "init_options =
     \<lparr>keywords_arr = [], case_sensitive = True, recursive = True, search_filenames = True,
      search_content = True, show_line_numbers = True, max_depth = - 1,
      only_matching_files = False, count_only = False, min_size = 0, max_size = - 1,
      file_pattern = [], start_dir = ''.''\<rparr>"

text \<open>The statistics as \<open>main\<close> initialises them, and nothing printed yet.\<close>

definition fresh_run :: run where
  "fresh_run =
     \<lparr>stats = \<lparr>files_searched = 0, files_matched = 0, total_matches = 0, total_size = 0,
               start_time = 0\<rparr>,
      stdout = []\<rparr>"

text \<open>
  A small tree: \<open>./a.txt\<close> and \<open>./b/c.txt\<close> are regular files, \<open>./locked\<close> is a
  regular file that cannot be opened, \<open>./b\<close> is a directory and \<open>./b/up\<close> is a
  symbolic link to the start directory, so that opening it as a directory lists the
  start directory again.
\<close>

definition tree_fs :: filesystem where
  "tree_fs =
     \<lparr>fopen = (\<lambda>p.
        if p = ''./a.txt''
        then Some \<lparr>fstat_ok = True, st_size = 7, bytes = ''foo'' @ [newline] @ ''bar''\<rparr>
        else if p = ''./b/c.txt''
        then Some \<lparr>fstat_ok = True, st_size = 7, bytes = ''foo foo''\<rparr>
        else None),
      lstat = (\<lambda>p.
        if p = ''./a.txt'' \<or> p = ''./b/c.txt'' \<or> p = ''./locked'' then Some S_IFREG
        else if p = ''./b'' then Some S_IFDIR
        else if p = ''./b/up'' then Some S_IFLNK
        else None),
      opendir = (\<lambda>p.
        if p = ''.'' \<or> p = ''./b/up'' then Some [''.'', ''..'', ''a.txt'', ''b'', ''locked'']
        else if p = ''./b'' then Some [''.'', ''..'', ''c.txt'', ''up'']
        else None)\<rparr>"

text \<open>
  Two files of 500 bytes: \<open>fstat\<close> succeeds on \<open>small.txt\<close> and fails on
  \<open>nostat.txt\<close>.
\<close>

definition stat_fs :: filesystem where
  "stat_fs =
     \<lparr>fopen = (\<lambda>p.
        if p = ''small.txt''
        then Some \<lparr>fstat_ok = True, st_size = 500, bytes = replicate 500 CHR ''x''\<rparr>
        else if p = ''nostat.txt''
        then Some \<lparr>fstat_ok = False, st_size = 500, bytes = replicate 500 CHR ''x''\<rparr>
        else None),
      lstat = (\<lambda>p. if p = ''small.txt'' \<or> p = ''nostat.txt'' then Some S_IFREG else None),
      opendir = (\<lambda>p. None)\<rparr>"

definition five_fs :: filesystem where
  "five_fs =
     \<lparr>fopen = (\<lambda>p.
        if p = ''notes.txt''
        then Some \<lparr>fstat_ok = True, st_size = 20,
                   bytes = ''foo'' @ [newline] @ ''foo'' @ [newline] @ ''foo'' @ [newline] @
                     ''foo'' @ [newline] @ ''foo'' @ [newline]\<rparr>
        else None),
      lstat = (\<lambda>p. if p = ''notes.txt'' then Some S_IFREG else None),
      opendir = (\<lambda>p. None)\<rparr>"

text \<open>
  The same tree with the link \<open>./b/up\<close> dangling: it cannot be opened as a
  directory, and nothing can be opened through it.
\<close>

definition dangling_fs :: filesystem where
  "dangling_fs =
     tree_fs\<lparr>opendir := (\<lambda>p.
        if p = ''.'' then Some [''.'', ''..'', ''a.txt'', ''b'', ''locked'']
        else if p = ''./b'' then Some [''.'', ''..'', ''c.txt'', ''up'']
        else None)\<rparr>"

section \<open>Properties of the string functions\<close>

lemma strrchr_last:
  "strrchr s c = (if c \<in> set s then Some (c # rev (takeWhile (\<lambda>x. x \<noteq> c) (rev s))) else None)"
proof (induction s)
  case Nil
  then show ?case by simp
next
  case (Cons x xs)
  show ?case
  proof (cases "c \<in> set xs")
    case True
    then have "takeWhile (\<lambda>x. x \<noteq> c) (rev xs @ [x]) = takeWhile (\<lambda>x. x \<noteq> c) (rev xs)"
      by (intro takeWhile_append1[where x=c]) auto
    with True Cons show ?thesis by simp
  next
    case False
    then have "takeWhile (\<lambda>x. x \<noteq> c) (rev xs @ [x]) = rev xs @ takeWhile (\<lambda>x. x \<noteq> c) [x]"
      by (intro takeWhile_append2) auto
    with False Cons show ?thesis by auto
  qed
qed

lemma basename_spec: "basename filename = spec_basename filename"
proof (cases "CHR ''/'' \<in> set filename")
  case True
  then show ?thesis by (simp add: basename_def spec_basename_def strrchr_last)
next
  case False
  then have "\<forall>c\<in>set (rev filename). c \<noteq> CHR ''/''" by auto
  then have "takeWhile (\<lambda>c. c \<noteq> CHR ''/'') (rev filename) = rev filename"
    by (simp only: takeWhile_eq_all_conv)
  then have "spec_basename filename = filename"
    by (simp only: spec_basename_def rev_rev_ident)
  with False show ?thesis by (simp add: basename_def strrchr_last)
qed

lemma of_char_int_range: "0 \<le> (of_char c :: int) \<and> (of_char c :: int) < 256"
proof -
  have "(of_char c :: int) = int (of_char c)"
    by (simp add: of_nat_of_char)
  moreover have "(of_char c :: nat) < 256"
    by simp
  ultimately show ?thesis by simp
qed

lemma of_char_zero: "(of_char c :: int) = 0 \<longleftrightarrow> c = CHR 0x00"
proof -
  have "(of_char (CHR 0x00) :: int) = 0" by simp
  then have "(of_char c :: int) = 0 \<longleftrightarrow> (of_char c :: int) = of_char (CHR 0x00)"
    by simp
  then show ?thesis by (simp only: of_char_eq_iff)
qed

lemma tolower_byte_zero: "tolower (of_char c) = 0 \<longleftrightarrow> c = CHR 0x00"
  using of_char_int_range[of c] of_char_zero[of c] by (auto simp: tolower_def)

lemma tolower_zero: "tolower 0 = 0"
  by (simp add: tolower_def)

lemma strcasecmp_loop_zero:
  "cstring s1 \<Longrightarrow> cstring s2 \<Longrightarrow> strcasecmp_loop s1 s2 = 0 \<longleftrightarrow> eq_nocase s1 s2"
proof (induction s1 arbitrary: s2)
  case Nil
  show ?case
  proof (cases s2)
    case Nil
    then show ?thesis by (simp add: eq_nocase_def lower_string_def)
  next
    case (Cons b bs)
    with Nil.prems have "b \<noteq> CHR 0x00" by (auto simp: cstring_def)
    then have "tolower (of_char b) \<noteq> 0" by (simp add: tolower_byte_zero)
    with Cons show ?thesis by (simp add: eq_nocase_def lower_string_def tolower_zero)
  qed
next
  case (Cons a as)
  then have a: "a \<noteq> CHR 0x00" and as: "cstring as" by (auto simp: cstring_def)
  show ?case
  proof (cases s2)
    case Nil
    from a have "tolower (of_char a) \<noteq> 0" by (simp add: tolower_byte_zero)
    with Nil show ?thesis by (simp add: eq_nocase_def lower_string_def tolower_zero)
  next
    case (Cons b bs)
    with Cons.prems have "cstring bs" by (simp add: cstring_def)
    with as have "strcasecmp_loop as bs = 0 \<longleftrightarrow> eq_nocase as bs"
      by (rule Cons.IH)
    with Cons show ?thesis by (simp add: eq_nocase_def lower_string_def Let_def)
  qed
qed

lemma basename_subset: "set (basename filename) \<subseteq> set filename"
proof
  fix c assume "c \<in> set (basename filename)"
  then have "c \<in> set (takeWhile (\<lambda>c. c \<noteq> CHR ''/'') (rev filename))"
    by (simp add: basename_spec spec_basename_def)
  then have "c \<in> set (rev filename)" by (rule set_takeWhileD [THEN conjunct1])
  then show "c \<in> set filename" by simp
qed

lemma matches_pattern_spec:
  assumes "cstring filename" "cstring pattern"
  shows "matches_pattern (Some filename) (Some pattern) = spec_matches filename pattern"
proof -
  from assms basename_subset [of filename] have cb: "cstring (basename filename)"
    unfolding cstring_def by blast
  have "set (drop 2 pattern) \<subseteq> set pattern" by (rule set_drop_subset)
  with assms have cd: "cstring (drop 2 pattern)"
    unfolding cstring_def by blast
  have "set (rev (takeWhile (\<lambda>c. c \<noteq> CHR ''.'') (rev (basename filename)))) \<subseteq> set (basename filename)"
    using set_takeWhileD [of _ "\<lambda>c. c \<noteq> CHR ''.''" "rev (basename filename)"] by auto
  with cb have ce: "cstring (rev (takeWhile (\<lambda>c. c \<noteq> CHR ''.'') (rev (basename filename))))"
    unfolding cstring_def by blast
  show ?thesis
    using cb cd ce assms
    by (simp add: spec_matches_def spec_extension_def strrchr_last strcasecmp_loop_zero
        basename_spec [symmetric])
qed


text \<open>
  What the two substring searches decide: \<open>strstr\<close> finds the needle exactly when
  it occurs in the haystack (the empty needle occurs everywhere), \<open>strstr_case\<close>
  exactly when the needle is not empty and some part of the haystack equals it
  case-insensitively.
\<close>

lemma strstr_occurs:
  "strstr s1 s2 \<noteq> None \<longleftrightarrow> (\<exists>pre post. s1 = pre @ s2 @ post)"
proof (induction s1)
  case Nil
  then show ?case by simp
next
  case (Cons c cs)
  have "(\<exists>pre post. c # cs = pre @ s2 @ post) \<longleftrightarrow>
        take (length s2) (c # cs) = s2 \<or> (\<exists>pre post. cs = pre @ s2 @ post)"
  proof
    assume "\<exists>pre post. c # cs = pre @ s2 @ post"
    then obtain pre post where d: "c # cs = pre @ s2 @ post" by blast
    show "take (length s2) (c # cs) = s2 \<or> (\<exists>pre post. cs = pre @ s2 @ post)"
    proof (cases pre)
      case Nil
      with d have "take (length s2) (c # cs) = s2" by simp
      then show ?thesis ..
    next
      case (Cons p ps)
      with d have "cs = ps @ s2 @ post" by simp
      then show ?thesis by blast
    qed
  next
    assume "take (length s2) (c # cs) = s2 \<or> (\<exists>pre post. cs = pre @ s2 @ post)"
    then show "\<exists>pre post. c # cs = pre @ s2 @ post"
    proof
      assume "take (length s2) (c # cs) = s2"
      then have "c # cs = [] @ s2 @ drop (length s2) (c # cs)"
        by (metis append_Nil append_take_drop_id)
      then show ?thesis by blast
    next
      assume "\<exists>pre post. cs = pre @ s2 @ post"
      then obtain pre post where "cs = pre @ s2 @ post" by blast
      then have "c # cs = (c # pre) @ s2 @ post" by simp
      then show ?thesis by blast
    qed
  qed
  with Cons show ?case by simp
qed

lemma strstr_case_inner_done:
  "strstr_case_inner h n = [] \<longleftrightarrow> eq_nocase (take (length n) h) n \<and> length n \<le> length h"
  by (induction h n rule: strstr_case_inner.induct)
     (auto simp: eq_nocase_def lower_string_def)

lemma eq_nocase_length: "eq_nocase a b \<Longrightarrow> length a = length b"
  unfolding eq_nocase_def lower_string_def by (rule map_eq_imp_length_eq)

lemma strstr_case_inner_prefix:
  "strstr_case_inner h n = [] \<longleftrightarrow> (\<exists>mid post. h = mid @ post \<and> eq_nocase mid n)"
proof
  assume "strstr_case_inner h n = []"
  then have "eq_nocase (take (length n) h) n" by (simp add: strstr_case_inner_done)
  moreover have "h = take (length n) h @ drop (length n) h" by simp
  ultimately show "\<exists>mid post. h = mid @ post \<and> eq_nocase mid n" by blast
next
  assume "\<exists>mid post. h = mid @ post \<and> eq_nocase mid n"
  then obtain mid post where h: "h = mid @ post" and e: "eq_nocase mid n" by blast
  from e have "length mid = length n" by (rule eq_nocase_length)
  with h e show "strstr_case_inner h n = []"
    by (simp add: strstr_case_inner_done)
qed

lemma strstr_case_loop_occurs:
  assumes "n \<noteq> []"
  shows "strstr_case_loop h n \<noteq> None \<longleftrightarrow>
         (\<exists>pre mid post. h = pre @ mid @ post \<and> eq_nocase mid n)"
proof (induction h)
  case Nil
  from assms have "\<not> eq_nocase [] n"
    by (auto dest: eq_nocase_length)
  then show ?case by simp
next
  case (Cons c cs)
  have "(\<exists>pre mid post. c # cs = pre @ mid @ post \<and> eq_nocase mid n) \<longleftrightarrow>
        (\<exists>mid post. c # cs = mid @ post \<and> eq_nocase mid n) \<or>
        (\<exists>pre mid post. cs = pre @ mid @ post \<and> eq_nocase mid n)"
  proof
    assume "\<exists>pre mid post. c # cs = pre @ mid @ post \<and> eq_nocase mid n"
    then obtain pre mid post where d: "c # cs = pre @ mid @ post" and e: "eq_nocase mid n"
      by blast
    show "(\<exists>mid post. c # cs = mid @ post \<and> eq_nocase mid n) \<or>
          (\<exists>pre mid post. cs = pre @ mid @ post \<and> eq_nocase mid n)"
    proof (cases pre)
      case Nil
      with d e show ?thesis by auto
    next
      case (Cons p ps)
      with d have "cs = ps @ mid @ post" by simp
      with e show ?thesis by blast
    qed
  next
    assume "(\<exists>mid post. c # cs = mid @ post \<and> eq_nocase mid n) \<or>
            (\<exists>pre mid post. cs = pre @ mid @ post \<and> eq_nocase mid n)"
    then show "\<exists>pre mid post. c # cs = pre @ mid @ post \<and> eq_nocase mid n"
    proof
      assume "\<exists>mid post. c # cs = mid @ post \<and> eq_nocase mid n"
      then obtain mid post where "c # cs = [] @ mid @ post" and "eq_nocase mid n" by auto
      then show ?thesis by blast
    next
      assume "\<exists>pre mid post. cs = pre @ mid @ post \<and> eq_nocase mid n"
      then obtain pre mid post where "cs = pre @ mid @ post" and e: "eq_nocase mid n" by blast
      then have "c # cs = (c # pre) @ mid @ post" by simp
      with e show ?thesis by blast
    qed
  qed
  note key = this
  have step: "strstr_case_loop (c # cs) n \<noteq> None \<longleftrightarrow>
      strstr_case_inner (c # cs) n = [] \<or> strstr_case_loop cs n \<noteq> None"
    by (simp del: strstr_case_inner.simps)
  show ?case
    by (simp only: step key strstr_case_inner_prefix Cons.IH)
qed

lemma found_occurs:
  "found opts line kw \<longleftrightarrow>
     (if case_sensitive opts then (\<exists>pre post. line = pre @ kw @ post)
      else kw \<noteq> [] \<and> (\<exists>pre mid post. line = pre @ mid @ post \<and> eq_nocase mid kw))"
proof (cases "case_sensitive opts")
  case True
  then have "found opts line kw \<longleftrightarrow> strstr line kw \<noteq> None"
    by (simp add: found_def)
  with True show ?thesis
    by (simp only: strstr_occurs if_True)
next
  case False
  show ?thesis
  proof (cases "kw = []")
    case True
    with False show ?thesis by (simp add: found_def)
  next
    case nonempty: False
    with False have "found opts line kw \<longleftrightarrow> strstr_case_loop line kw \<noteq> None"
      by (simp add: found_def)
    with False nonempty show ?thesis
      by (simp only: strstr_case_loop_occurs [OF nonempty] if_False simp_thms)
  qed
qed

section \<open>Properties of the file scanner\<close>

lemma add_hits_0: "add_hits opts filename ln line 0 st = st"
  by (simp add: add_hits_def)

lemma keyword_loop_all:
  assumes "\<not> only_matching_files opts"
  shows "keyword_loop opts filename ln line kws m st =
           Finished (m \<or> list_ex (found opts line) kws)
             (add_hits opts filename ln line (length (filter (found opts line) kws)) st)"
  using assms
proof (induction kws arbitrary: m st)
  case Nil
  then show ?case by (simp add: add_hits_def)
next
  case (Cons kw kws)
  then show ?case
    by (simp add: add_hits_def inc_total_matches_def printf_def Let_def replicate_append_same)
qed

lemma keyword_loop_names_only:
  assumes "only_matching_files opts"
  shows "keyword_loop opts filename ln line kws m st =
           (if list_ex (found opts line) kws
            then Returned (inc_files_matched (inc_total_matches st))
            else Finished m st)"
  using assms by (induction kws arbitrary: m st) (simp_all add: Let_def)

lemma line_loop_names_only:
  assumes "only_matching_files opts"
  shows "line_loop opts filename ln bufs m st =
           (if content_match opts bufs
            then Returned (inc_files_matched (inc_total_matches st))
            else Finished m st)"
  using assms
  by (induction bufs arbitrary: ln m st) (simp_all add: content_match_def keyword_loop_names_only)

lemma line_loop_no_match:
  assumes "\<not> content_match opts bufs"
  shows "line_loop opts filename ln bufs m st = Finished m st"
proof (cases "only_matching_files opts")
  case True
  with assms show ?thesis by (simp add: line_loop_names_only)
next
  case False
  from assms show ?thesis
  proof (induction bufs arbitrary: ln m st)
    case Nil
    then show ?case by simp
  next
    case (Cons buf bufs)
    then have no: "\<not> list_ex (found opts (chomp buf)) (keywords_arr opts)"
      and rest: "\<not> content_match opts bufs"
      by (simp_all add: content_match_def)
    from no have "filter (found opts (chomp buf)) (keywords_arr opts) = []"
      by (simp add: list_ex_iff filter_empty_conv)
    with no False Cons.IH [OF rest] show ?case
      by (simp add: keyword_loop_all add_hits_0)
  qed
qed


lemma line_loop_all:
  assumes "\<not> only_matching_files opts"
  shows "line_loop opts filename ln bufs m st =
           Finished (m \<or> content_match opts bufs) (scan_lines opts filename ln bufs st)"
  using assms
  by (induction bufs arbitrary: ln m st)
     (simp_all add: content_match_def keyword_loop_all line_hits_def)

lemma filename_loop_first:
  "filename_loop opts filename kws st =
     (if list_ex (found opts (basename filename)) kws
      then Some (print_filename_match opts filename (inc_files_matched (inc_total_matches st)))
      else None)"
  by (induction kws) (simp_all add: print_filename_match_def Let_def)

lemma scan_lines_no_match:
  "\<not> content_match opts bufs \<Longrightarrow> scan_lines opts filename ln bufs st = st"
proof (induction bufs arbitrary: ln st)
  case Nil
  then show ?case by simp
next
  case (Cons buf bufs)
  then have no: "\<not> list_ex (found opts (chomp buf)) (keywords_arr opts)"
    and rest: "\<not> content_match opts bufs"
    by (simp_all add: content_match_def)
  from no have "line_hits opts (chomp buf) = 0"
    by (simp add: line_hits_def list_ex_iff filter_empty_conv)
  with Cons.IH [OF rest] show ?case
    by (simp add: add_hits_0)
qed

lemma scan_file_result:
  "scan_file opts filename bufs st =
     (if search_content opts \<and> content_match opts bufs then
        (True,
         inc_files_matched
           (if only_matching_files opts then inc_total_matches (inc_files_searched st)
            else scan_lines opts filename 0 bufs (inc_files_searched st)))
      else if search_filenames opts \<and> filename_match opts filename then
        (True,
         print_filename_match opts filename
           (inc_files_matched (inc_total_matches (inc_files_searched st))))
      else (False, inc_files_searched st))"
proof (cases "only_matching_files opts")
  case True
  then show ?thesis
    by (simp add: scan_file_def line_loop_names_only filename_loop_first filename_match_def
        Let_def)
next
  case False
  then show ?thesis
    by (simp add: scan_file_def line_loop_all filename_loop_first filename_match_def
        scan_lines_no_match Let_def)
qed

lemma search_file_opened:
  assumes "fopen fs filename = Some f"
  shows "search_file fs filename opts st =
           (if size_rejected opts f \<or> pattern_rejected opts filename
            then (False, if fstat_ok f then add_total_size (st_size f) st else st)
            else scan_file opts filename (read_lines (bytes f))
                   (if fstat_ok f then add_total_size (st_size f) st else st))"
  using assms
  by (auto simp add: search_file_def size_rejected_def pattern_rejected_def Let_def
      simp del: matches_pattern.simps)


lemma scan_lines_stats:
  "files_matched (stats (scan_lines opts filename ln bufs st)) = files_matched (stats st) \<and>
   files_searched (stats (scan_lines opts filename ln bufs st)) = files_searched (stats st) \<and>
   total_size (stats (scan_lines opts filename ln bufs st)) = total_size (stats st)"
  by (induction bufs arbitrary: ln st) (simp_all add: add_hits_def)

lemma scan_file_files_matched:
  "files_matched (stats (snd (scan_file opts filename bufs st))) =
     files_matched (stats st) + (if fst (scan_file opts filename bufs st) then 1 else 0)"
  by (simp add: scan_file_result scan_lines_stats inc_files_matched_def inc_total_matches_def
      inc_files_searched_def print_filename_match_def printf_def)

lemma scan_file_files_searched:
  "files_searched (stats (snd (scan_file opts filename bufs st))) = files_searched (stats st) + 1 \<and>
   total_size (stats (snd (scan_file opts filename bufs st))) = total_size (stats st)"
  by (simp add: scan_file_result scan_lines_stats inc_files_matched_def inc_total_matches_def
      inc_files_searched_def print_filename_match_def printf_def)

lemma scan_file_returns:
  "fst (scan_file opts filename bufs st) =
     (search_content opts \<and> content_match opts bufs \<or>
      search_filenames opts \<and> filename_match opts filename)"
  by (simp add: scan_file_result)

lemma found_empty_keyword:
  "found opts text [] = case_sensitive opts"
  by (cases "text") (simp_all add: found_def)

lemma names_only_first_match:
  assumes "only_matching_files opts" and "search_content opts"
    and "\<not> content_match opts before" and "list_ex (found opts (chomp buf)) (keywords_arr opts)"
  shows "scan_file opts filename (before @ buf # after) st =
           (True, inc_files_matched (inc_total_matches (inc_files_searched st)))"
proof -
  from assms(4) have "content_match opts (before @ buf # after)"
    by (simp add: content_match_def)
  with assms(1,2) show ?thesis
    by (simp add: scan_file_result)
qed

lemma names_only_output:
  assumes "only_matching_files opts"
  shows "stdout (snd (search_file fs filename opts st)) = stdout st \<or>
         stdout (snd (search_file fs filename opts st)) = stdout st @ [filename_record filename]"
proof (cases "fopen fs filename")
  case None
  then show ?thesis by (simp add: search_file_def)
next
  case (Some f)
  with assms show ?thesis
    by (simp add: search_file_opened scan_file_result print_filename_match_def printf_def
        inc_files_matched_def inc_total_matches_def inc_files_searched_def add_total_size_def)
qed

lemma search_file_total_size:
  assumes "fopen fs filename = Some f"
  shows "total_size (stats (snd (search_file fs filename opts st))) =
           (if fstat_ok f then wrap_long (total_size (stats st) + st_size f)
            else total_size (stats st))"
  using assms
  by (simp add: search_file_opened scan_file_files_searched add_total_size_def)

lemma search_file_files_searched:
  assumes "fopen fs filename = Some f"
  shows "files_searched (stats (snd (search_file fs filename opts st))) =
           files_searched (stats st) +
             (if size_rejected opts f \<or> pattern_rejected opts filename then 0 else 1)"
  using assms
  by (simp add: search_file_opened scan_file_files_searched add_total_size_def)

lemma found_search_filenames:
  "found (opts\<lparr>search_filenames := b\<rparr>) = found opts"
  by (simp add: found_def fun_eq_iff)

lemma content_match_search_filenames:
  "content_match (opts\<lparr>search_filenames := b\<rparr>) bufs = content_match opts bufs"
  by (simp add: content_match_def found_search_filenames)

lemma scan_lines_search_filenames:
  "scan_lines (opts\<lparr>search_filenames := b\<rparr>) filename ln bufs st =
     scan_lines opts filename ln bufs st"
  by (induction bufs arbitrary: ln st)
     (simp_all add: line_hits_def found_search_filenames add_hits_def content_record_def)

lemma filters_search_filenames:
  "size_rejected (opts\<lparr>search_filenames := b\<rparr>) f = size_rejected opts f"
  "pattern_rejected (opts\<lparr>search_filenames := b\<rparr>) filename = pattern_rejected opts filename"
  by (simp_all add: size_rejected_def pattern_rejected_def del: matches_pattern.simps)

lemma wrap_long_in_range:
  "- (2 ^ 63) \<le> x \<Longrightarrow> x < 2 ^ 63 \<Longrightarrow> wrap_long x = x"
  by (simp add: wrap_long_def)

lemma wrap_long_overflow:
  "wrap_long (9223372036854775807 + 7) = - 9223372036854775802"
  by (simp add: wrap_long_def)

lemma wrap_int_in_range:
  "- (2 ^ 31) \<le> x \<Longrightarrow> x < 2 ^ 31 \<Longrightarrow> wrap_int x = x"
  by (simp add: wrap_int_def)

lemma scan_lines_total_matches:
  "total_matches (stats (scan_lines opts filename ln bufs st)) =
     total_matches (stats st) + int (total_hits opts bufs)"
  by (induction bufs arbitrary: ln st) (simp_all add: total_hits_def add_hits_def)

lemma scan_lines_stdout:
  "n + length bufs \<le> 2147483647 \<Longrightarrow>
   stdout (scan_lines opts filename (int n) bufs st) =
     stdout st @ (if count_only opts then [] else line_records opts filename n bufs)"
proof (induction bufs arbitrary: n st)
  case Nil
  then show ?case by simp
next
  case (Cons buf bufs)
  then have "wrap_int (int n + 1) = int (Suc n)"
    by (simp add: wrap_int_in_range)
  moreover from Cons.prems have "Suc n + length bufs \<le> 2147483647"
    by simp
  ultimately show ?case
    using Cons.IH [of "Suc n"] by (simp add: add_hits_def add.commute)
qed



lemma searched_state_fields:
  "stdout (searched_state f st) = stdout st"
  "total_matches (stats (searched_state f st)) = total_matches (stats st)"
  "files_matched (stats (searched_state f st)) = files_matched (stats st)"
  "files_searched (stats (searched_state f st)) = files_searched (stats st) + 1"
  by (simp_all add: searched_state_def inc_files_searched_def add_total_size_def)

lemma search_file_searched:
  assumes "fopen fs filename = Some f"
    and "\<not> size_rejected opts f" and "\<not> pattern_rejected opts filename"
  shows "search_file fs filename opts st =
           (if search_content opts \<and> content_match opts (read_lines (bytes f)) then
              (True,
               inc_files_matched
                 (if only_matching_files opts then inc_total_matches (searched_state f st)
                  else scan_lines opts filename 0 (read_lines (bytes f)) (searched_state f st)))
            else if search_filenames opts \<and>
                    list_ex (found opts (spec_basename filename)) (keywords_arr opts) then
              (True,
               print_filename_match opts filename
                 (inc_files_matched (inc_total_matches (searched_state f st))))
            else (False, searched_state f st))"
  using assms
  by (simp add: search_file_opened scan_file_result searched_state_def filename_match_def
      basename_spec)

section \<open>Properties of the directory walker\<close>

lemma walk_entries_step:
  "walk_entries fs path depth opts (d_name # names) st =
     walk_entries fs path depth opts names
       (case entry_type fs path d_name of
          Some S_IFDIR \<Rightarrow>
            if recursive opts
            then search_directory fs (Some (entry_path path d_name)) (depth + 1) opts st
            else st
        | Some S_IFREG \<Rightarrow> snd (search_file fs (entry_path path d_name) opts st)
        | _ \<Rightarrow> st)"
  by (simp add: entry_type_def entry_path_def Let_def split: option.splits file_type.splits)

lemma search_directory_too_deep:
  "max_depth opts \<ge> 0 \<Longrightarrow> depth > max_depth opts \<Longrightarrow>
   search_directory fs path depth opts st = st"
  by (cases path) simp_all

lemma walk_entries_depth_zero:
  assumes "max_depth opts = 0"
  shows "walk_entries fs path 0 opts names st = scan_regular_files fs path opts names st"
proof (induction names arbitrary: st)
  case Nil
  then show ?case by simp
next
  case (Cons d_name names)
  from assms have "search_directory fs (Some (entry_path path d_name)) (0 + 1) opts st = st"
    by (simp add: search_directory_too_deep)
  then show ?case
    by (simp only: walk_entries_step scan_regular_files.simps Cons.IH)
       (simp split: option.splits file_type.splits)
qed


lemma search_file_fopen:
  "fopen fs' filename = fopen fs filename \<Longrightarrow>
   search_file fs' filename opts st = search_file fs filename opts st"
  by (simp add: search_file_def)

lemma same_without_links_walk:
  assumes "same_without_links fs fs'"
  shows "(case p of None \<Rightarrow> True
          | Some dir \<Rightarrow> opendir fs' dir = opendir fs dir \<longrightarrow>
              search_directory fs' p depth opts st = search_directory fs p depth opts st)"
    and "walk_entries fs' path depth opts names st = walk_entries fs path depth opts names st"
  using assms
proof (induction fs p depth opts st and fs path depth opts names st
    rule: search_directory_walk_entries.induct)
  case (1 fs depth opts st)
  then show ?case by simp
next
  case (2 fs path depth opts st)
  then show ?case by (auto split: option.splits)
next
  case (3 fs path depth opts st)
  then show ?case by simp
next
  case (4 fs path depth opts d_name names st)
  from "4.prems" have l: "lstat fs' p = lstat fs p" for p
    by (simp add: same_without_links_def)
  from "4.prems" have o: "lstat fs p = Some S_IFDIR \<Longrightarrow> opendir fs' p = opendir fs p" for p
    by (simp add: same_without_links_def)
  from "4.prems" have "lstat fs p = Some S_IFREG \<Longrightarrow> fopen fs' p = fopen fs p" for p
    by (simp add: same_without_links_def)
  then have f: "lstat fs p = Some S_IFREG \<Longrightarrow>
      search_file fs' p opts s = search_file fs p opts s" for p s
    by (rule search_file_fopen)
  note sw = "4.prems"
  let ?x = "path @ ''/'' @ d_name"
  show ?case
  proof (cases "d_name = ''.'' \<or> d_name = ''..''")
    case True
    from "4.IH"(1) [OF True sw] True show ?thesis by simp
  next
    case np: False
    show ?thesis
    proof (cases "MAX_PATH < length path + length d_name + 2")
      case True
      from "4.IH"(2) [OF np True sw] np True show ?thesis by simp
    next
      case fits: False
      show ?thesis
      proof (cases "lstat fs ?x")
        case None
        from "4.IH"(3) [OF np fits refl None sw] np fits None show ?thesis
          by (simp add: l)
      next
        case (Some mode)
        show ?thesis
        proof (cases "mode = S_IFDIR")
          case dir: True
          show ?thesis
          proof (cases "recursive opts")
            case True
            from Some dir have "opendir fs' ?x = opendir fs ?x"
              by (simp add: o)
            with "4.IH"(4) [OF np fits refl Some dir True sw]
            have "search_directory fs' (Some ?x) (depth + 1) opts st =
                search_directory fs (Some ?x) (depth + 1) opts st"
              by simp
            with "4.IH"(5) [OF np fits refl Some dir True sw] np fits Some dir True
            show ?thesis
              by (simp add: l)
          next
            case False
            from "4.IH"(6) [OF np fits refl Some dir False sw] np fits Some dir False
            show ?thesis
              by (simp add: l)
          qed
        next
          case nodir: False
          show ?thesis
          proof (cases "mode = S_IFREG")
            case True
            from Some True have "search_file fs' ?x opts st = search_file fs ?x opts st"
              by (simp add: f)
            with "4.IH"(7) [OF np fits refl Some nodir True sw] np fits Some nodir True
            show ?thesis
              by (simp add: l)
          next
            case False
            from "4.IH"(8) [OF np fits refl Some nodir False sw] np fits Some nodir False
            show ?thesis
              by (simp add: l)
          qed
        qed
      qed
    qed
  qed
qed


lemma same_without_links_search_directory:
  assumes "same_without_links fs fs'" and "opendir fs' start = opendir fs start"
  shows "search_directory fs' (Some start) depth opts st =
         search_directory fs (Some start) depth opts st"
  using same_without_links_walk(1) [OF assms(1), of "Some start" depth opts st] assms(2)
  by simp

section \<open>The claims\<close>

text \<open>
  C3. For a file name and a pattern (both C strings): the empty pattern matches; a
  pattern \<open>*.ext\<close> matches exactly when the basename (what follows the last \<open>/\<close>, or
  the whole name) contains a dot and what follows its last dot equals \<open>ext\<close>
  case-insensitively, so that a basename without a dot never matches; any other
  pattern matches exactly when it equals the basename case-insensitively; and
  \<open>matches_pattern("src/main.C", "*.c")\<close> is true.
\<close>

theorem matches_pattern_meets_spec:
  assumes "cstring filename" and "cstring pattern"
  shows "matches_pattern (Some filename) (Some pattern) =
           (if pattern = [] then True
            else if take 2 pattern = ''*.'' then
              (case spec_extension (spec_basename filename) of
                 None \<Rightarrow> False
               | Some e \<Rightarrow> eq_nocase e (drop 2 pattern))
            else eq_nocase (spec_basename filename) pattern) \<and>
         (CHR ''.'' \<notin> set (spec_basename filename) \<and> take 2 pattern = ''*.''
            \<longrightarrow> \<not> matches_pattern (Some filename) (Some pattern)) \<and>
         matches_pattern (Some ''src/main.C'') (Some ''*.c'')"
proof -
  from assms have eq:
    "matches_pattern (Some filename) (Some pattern) = spec_matches filename pattern"
    by (rule matches_pattern_spec)
  have lit: "matches_pattern (Some ''src/main.C'') (Some ''*.c'')"
    by (simp add: basename_def tolower_def)
  from eq lit show ?thesis
    by (auto simp: spec_matches_def spec_extension_def)
qed

theorem matches_pattern_meets_spec_witness:
  "cstring ''Makefile'' \<and> cstring ''*.c'' \<and>
   CHR ''.'' \<notin> set (spec_basename ''Makefile'') \<and> take 2 ''*.c'' = ''*.'' \<and>
   \<not> matches_pattern (Some ''Makefile'') (Some ''*.c'') \<and>
   matches_pattern (Some ''src/main.C'') (Some ''*.c'')"
proof -
  have c: "cstring ''Makefile''" "cstring ''*.c''"
    by (simp_all add: cstring_def)
  have d: "CHR ''.'' \<notin> set (spec_basename ''Makefile'')"
    by (simp add: spec_basename_def)
  have e: "spec_extension (spec_basename ''Makefile'') = None"
    by (simp add: spec_extension_def spec_basename_def)
  from matches_pattern_meets_spec [OF c] c d e show ?thesis
    by simp
qed

text \<open>
  C8. When the file cannot be opened, \<open>search_file\<close> returns false and leaves the
  statistics and the output as they were; the walker, for whom the entry is a regular
  file, goes on with the next entry in the same state.
\<close>

theorem search_file_unopenable:
  assumes "fopen fs filename = None"
  shows "search_file fs filename opts st = (False, st) \<and>
         (filename = path @ ''/'' @ d_name \<and> lstat fs filename = Some S_IFREG
            \<longrightarrow> walk_entries fs path depth opts (d_name # names) st =
                walk_entries fs path depth opts names st)"
proof -
  from assms have "search_file fs filename opts st = (False, st)"
    by (simp add: search_file_def)
  then show ?thesis
    by (auto simp: Let_def)
qed

theorem search_file_unopenable_witness:
  "fopen tree_fs ''./locked'' = None \<and>
   ''./locked'' = ''.'' @ ''/'' @ ''locked'' \<and> lstat tree_fs ''./locked'' = Some S_IFREG \<and>
   search_file tree_fs ''./locked'' init_options fresh_run = (False, fresh_run) \<and>
   walk_entries tree_fs ''.'' 0 init_options [''locked'', ''b''] fresh_run =
     walk_entries tree_fs ''.'' 0 init_options [''b''] fresh_run"
proof -
  have o: "fopen tree_fs ''./locked'' = None"
    by (simp add: tree_fs_def)
  have l: "lstat tree_fs ''./locked'' = Some S_IFREG"
    by (simp add: tree_fs_def)
  from search_file_unopenable [OF o, of init_options fresh_run "''.''" "''locked''" 0 "[''b'']"] o l
  show ?thesis by simp
qed

text \<open>
  C1. One call of \<open>search_file\<close> adds to \<open>files_matched\<close> exactly 1 when it
  returns true and nothing when it returns false, whichever of its paths is taken; for
  a file that is opened and passes the filters, with content search or file name
  search enabled, whose content and file name both contain a keyword, it returns true
  and \<open>files_matched\<close> grows by exactly 1.
\<close>

theorem files_matched_once:
  "files_matched (stats (snd (search_file fs filename opts st))) =
     files_matched (stats st) + (if fst (search_file fs filename opts st) then 1 else 0) \<and>
   (fopen fs filename = Some f \<and> \<not> size_rejected opts f \<and> \<not> pattern_rejected opts filename \<and>
    (search_content opts \<or> search_filenames opts) \<and>
    content_match opts (read_lines (bytes f)) \<and> filename_match opts filename
      \<longrightarrow> fst (search_file fs filename opts st) \<and>
          files_matched (stats (snd (search_file fs filename opts st))) =
            files_matched (stats st) + 1)"
proof -
  have once: "files_matched (stats (snd (search_file fs filename opts st))) =
     files_matched (stats st) + (if fst (search_file fs filename opts st) then 1 else 0)"
  proof (cases "fopen fs filename")
    case None
    then show ?thesis by (simp add: search_file_def)
  next
    case (Some g)
    show ?thesis
      by (simp add: search_file_opened [OF Some] scan_file_files_matched add_total_size_def)
  qed
  have both: "fst (search_file fs filename opts st)"
    if "fopen fs filename = Some f" "\<not> size_rejected opts f" "\<not> pattern_rejected opts filename"
      "search_content opts \<or> search_filenames opts"
      "content_match opts (read_lines (bytes f))" "filename_match opts filename"
    using that by (auto simp: search_file_opened scan_file_returns)
  from once both show ?thesis by simp
qed

theorem files_matched_once_witness:
  "fopen tree_fs ''./a.txt'' =
     Some \<lparr>fstat_ok = True, st_size = 7, bytes = ''foo'' @ [newline] @ ''bar''\<rparr> \<and>
   \<not> size_rejected (init_options\<lparr>keywords_arr := [''a'']\<rparr>)
       \<lparr>fstat_ok = True, st_size = 7, bytes = ''foo'' @ [newline] @ ''bar''\<rparr> \<and>
   \<not> pattern_rejected (init_options\<lparr>keywords_arr := [''a'']\<rparr>) ''./a.txt'' \<and>
   search_content (init_options\<lparr>keywords_arr := [''a'']\<rparr>) \<and>
   content_match (init_options\<lparr>keywords_arr := [''a'']\<rparr>)
     (read_lines (''foo'' @ [newline] @ ''bar'')) \<and>
   filename_match (init_options\<lparr>keywords_arr := [''a'']\<rparr>) ''./a.txt'' \<and>
   fst (search_file tree_fs ''./a.txt'' (init_options\<lparr>keywords_arr := [''a'']\<rparr>) fresh_run) \<and>
   files_matched (stats (snd (search_file tree_fs ''./a.txt''
     (init_options\<lparr>keywords_arr := [''a'']\<rparr>) fresh_run))) = 1"
proof -
  let ?opts = "init_options\<lparr>keywords_arr := [''a'']\<rparr>"
  let ?f = "\<lparr>fstat_ok = True, st_size = 7, bytes = ''foo'' @ [newline] @ ''bar''\<rparr>"
  have 1: "fopen tree_fs ''./a.txt'' = Some ?f"
    by (simp add: tree_fs_def)
  have 2: "\<not> size_rejected ?opts ?f"
    by (simp add: size_rejected_def init_options_def)
  have 3: "\<not> pattern_rejected ?opts ''./a.txt''"
    by (simp add: pattern_rejected_def init_options_def)
  have 4: "search_content ?opts"
    by (simp add: init_options_def)
  have 5: "content_match ?opts (read_lines (''foo'' @ [newline] @ ''bar''))"
    by (simp add: content_match_def read_lines.simps MAX_LINE_def newline_def chomp_def
        c_str_def found_def init_options_def)
  have 6: "filename_match ?opts ''./a.txt''"
    by (simp add: filename_match_def basename_def found_def init_options_def)
  have 7: "files_matched (stats fresh_run) = 0"
    by (simp add: fresh_run_def)
  from files_matched_once [of tree_fs "''./a.txt''" ?opts fresh_run ?f] 1 2 3 4 5 6 7
  show ?thesis by simp
qed

text \<open>
  C2. In names-only mode the first content match ends the scan of the file: the state
  left is that of a single match, \<open>files_matched\<close> is incremented and true is
  returned, whatever follows in the file. But nothing is printed: a file with five
  matching lines, scanned in names-only mode, leaves standard output empty instead of
  one line with the path, because the return at line 277 comes before the \<open>printf\<close>
  of line 316.
\<close>

theorem names_only_prints_nothing:
  "search_file five_fs ''notes.txt''
     (init_options\<lparr>keywords_arr := [''foo''], only_matching_files := True\<rparr>) fresh_run =
   (True,
    \<lparr>stats = \<lparr>files_searched = 1, files_matched = 1, total_matches = 1, total_size = 20,
              start_time = 0\<rparr>,
     stdout = []\<rparr>)"
  by (simp add: search_file_def scan_file_def five_fs_def init_options_def fresh_run_def
      read_lines.simps MAX_LINE_def newline_def chomp_def c_str_def found_def
      inc_files_matched_def inc_total_matches_def inc_files_searched_def add_total_size_def
      wrap_long_def wrap_int_def)

text \<open>
  C6. With an empty keyword the case-insensitive matcher \<open>strstr_case\<close> reports no
  match, but the case-sensitive search calls \<open>strstr\<close>, which finds the empty string
  at the start of every line: with the keyword \<open>""\<close> and the default case-sensitive
  mode every line of \<open>./a.txt\<close> is reported as a match.
\<close>

theorem empty_keyword_matches_case_sensitive:
  "found (init_options\<lparr>keywords_arr := ['''']\<rparr>) ''bar'' '''' \<and>
   search_file tree_fs ''./a.txt'' (init_options\<lparr>keywords_arr := ['''']\<rparr>) fresh_run =
   (True,
    \<lparr>stats = \<lparr>files_searched = 1, files_matched = 1, total_matches = 2, total_size = 7,
              start_time = 0\<rparr>,
     stdout = [''./a.txt:1:foo'' @ [newline], ''./a.txt:2:bar'' @ [newline]]\<rparr>)"
  by (simp add: search_file_def scan_file_def tree_fs_def init_options_def fresh_run_def
      read_lines.simps MAX_LINE_def newline_def chomp_def c_str_def found_def
      inc_files_matched_def inc_total_matches_def inc_files_searched_def add_total_size_def
      wrap_long_def wrap_int_def printf_def content_record_def string_of_int_def
      string_of_nat.simps digit_def)

text \<open>
  C4, as stated: the size of every file that \<open>search_file\<close> opens is added to
  \<open>total_size\<close>, and \<open>files_searched\<close> counts only files that pass the size
  filter. It fails for a file on which \<open>fstat\<close> fails: the block of lines 221-229 is
  skipped, so the 500 bytes of \<open>nostat.txt\<close> are not added and the file is counted
  as searched although \<open>min_size\<close> is 1000.
\<close>

theorem total_size_fstat_counterexample:
  "fopen stat_fs ''nostat.txt'' =
     Some \<lparr>fstat_ok = False, st_size = 500, bytes = replicate 500 CHR ''x''\<rparr> \<and>
   total_size (stats (snd (search_file stat_fs ''nostat.txt''
     (init_options\<lparr>keywords_arr := [''foo''], min_size := 1000\<rparr>) fresh_run))) \<noteq>
     total_size (stats fresh_run) + 500 \<and>
   files_searched (stats (snd (search_file stat_fs ''nostat.txt''
     (init_options\<lparr>keywords_arr := [''foo''], min_size := 1000\<rparr>) fresh_run))) =
     files_searched (stats fresh_run) + 1"
proof -
  let ?f = "\<lparr>fstat_ok = False, st_size = 500, bytes = replicate 500 CHR ''x''\<rparr>"
  have o: "fopen stat_fs ''nostat.txt'' = Some ?f"
    by (simp add: stat_fs_def)
  show ?thesis
    by (simp add: o search_file_total_size [OF o] search_file_files_searched [OF o]
        size_rejected_def pattern_rejected_def init_options_def)
qed

text \<open>
  C4, amended. For every file that \<open>search_file\<close> opens and on which \<open>fstat\<close>
  succeeds, the size is added to \<open>total_size\<close> in the arithmetic of a \<open>long\<close>
  (the sum itself whenever it is in the range of a \<open>long\<close>), also when the file is
  then rejected by the size filter or by the pattern filter; when \<open>fstat\<close> fails
  nothing is added and the size filter is not applied. \<open>files_searched\<close> is
  incremented exactly for the files that neither filter rejects. A file of 500 bytes
  under \<open>min_size = 1000\<close> adds 500 to \<open>total_size\<close> and nothing to
  \<open>files_searched\<close>.
\<close>

theorem total_size_counts_opened_files:
  assumes "fopen fs filename = Some f"
  shows "total_size (stats (snd (search_file fs filename opts st))) =
           (if fstat_ok f then wrap_long (total_size (stats st) + st_size f)
            else total_size (stats st)) \<and>
         (fstat_ok f \<and> - (2 ^ 63) \<le> total_size (stats st) + st_size f \<and>
          total_size (stats st) + st_size f < 2 ^ 63
            \<longrightarrow> total_size (stats (snd (search_file fs filename opts st))) =
                total_size (stats st) + st_size f) \<and>
         files_searched (stats (snd (search_file fs filename opts st))) =
           files_searched (stats st) +
             (if fstat_ok f \<and>
                 (min_size opts > 0 \<and> st_size f < min_size opts \<or>
                  max_size opts \<ge> 0 \<and> st_size f > max_size opts)
                 \<or> file_pattern opts \<noteq> [] \<and>
                    \<not> matches_pattern (Some filename) (Some (file_pattern opts))
              then 0 else 1)"
proof -
  have size: "total_size (stats (snd (search_file fs filename opts st))) =
      (if fstat_ok f then wrap_long (total_size (stats st) + st_size f)
       else total_size (stats st))"
    using assms by (rule search_file_total_size)
  have exact: "total_size (stats (snd (search_file fs filename opts st))) =
      total_size (stats st) + st_size f"
    if "fstat_ok f" and "- (2 ^ 63) \<le> total_size (stats st) + st_size f"
      and "total_size (stats st) + st_size f < 2 ^ 63"
    using that size by (simp add: wrap_long_in_range)
  have searched: "files_searched (stats (snd (search_file fs filename opts st))) =
      files_searched (stats st) +
        (if size_rejected opts f \<or> pattern_rejected opts filename then 0 else 1)"
    using assms by (rule search_file_files_searched)
  from size exact searched show ?thesis
    by (simp add: size_rejected_def pattern_rejected_def del: matches_pattern.simps)
qed

theorem total_size_counts_opened_files_witness:
  "fopen stat_fs ''small.txt'' =
     Some \<lparr>fstat_ok = True, st_size = 500, bytes = replicate 500 CHR ''x''\<rparr> \<and>
   - (2 ^ 63) \<le> total_size (stats fresh_run) + 500 \<and>
   total_size (stats fresh_run) + 500 < (2 ^ 63 :: int) \<and>
   total_size (stats (snd (search_file stat_fs ''small.txt''
     (init_options\<lparr>keywords_arr := [''foo''], min_size := 1000\<rparr>) fresh_run))) = 500 \<and>
   files_searched (stats (snd (search_file stat_fs ''small.txt''
     (init_options\<lparr>keywords_arr := [''foo''], min_size := 1000\<rparr>) fresh_run))) = 0"
proof -
  let ?f = "\<lparr>fstat_ok = True, st_size = 500, bytes = replicate 500 CHR ''x''\<rparr>"
  have o: "fopen stat_fs ''small.txt'' = Some ?f"
    by (simp add: stat_fs_def)
  have r: "- (2 ^ 63) \<le> total_size (stats fresh_run) + 500"
    "total_size (stats fresh_run) + 500 < (2 ^ 63 :: int)"
    by (simp_all add: fresh_run_def)
  from total_size_counts_opened_files [OF o,
      of "init_options\<lparr>keywords_arr := [''foo''], min_size := 1000\<rparr>" fresh_run] o r
  show ?thesis
    by (simp add: init_options_def fresh_run_def)
qed




text \<open>
  C7. For a file that is opened and passes the filters, the search in the file name
  runs only when it is enabled and no content match occurred. After a content match
  the result is that of the content search alone, whatever the file name. With file
  name search disabled and no content match, nothing is matched, whatever the file
  name. With file name search enabled and no content match: when some keyword occurs
  in the basename, \<open>total_matches\<close> and \<open>files_matched\<close> are each incremented by
  exactly 1 however many keywords occur in it, the line \<open>Filename match: <path>\<close> is
  printed unless count-only is set (names-only does not matter), and true is
  returned; when no keyword occurs in the basename, nothing is matched.
\<close>

theorem filename_search:
  assumes "fopen fs filename = Some f"
    and "\<not> size_rejected opts f" and "\<not> pattern_rejected opts filename"
  shows "(search_content opts \<and> content_match opts (read_lines (bytes f))
            \<longrightarrow> search_file fs filename opts st =
                (True,
                 inc_files_matched
                   (if only_matching_files opts then inc_total_matches (searched_state f st)
                    else scan_lines opts filename 0 (read_lines (bytes f))
                           (searched_state f st))) \<and>
                total_matches (stats (snd (search_file fs filename opts st))) =
                  total_matches (stats st) +
                    (if only_matching_files opts then 1
                     else int (total_hits opts (read_lines (bytes f)))) \<and>
                files_matched (stats (snd (search_file fs filename opts st))) =
                  files_matched (stats st) + 1 \<and>
                (length (read_lines (bytes f)) \<le> 2147483647
                   \<longrightarrow> stdout (snd (search_file fs filename opts st)) =
                       stdout st @
                         (if count_only opts \<or> only_matching_files opts then []
                          else line_records opts filename 0 (read_lines (bytes f))))) \<and>
         (\<not> search_filenames opts \<and>
          \<not> (search_content opts \<and> content_match opts (read_lines (bytes f)))
            \<longrightarrow> search_file fs filename opts st = (False, searched_state f st)) \<and>
         (search_filenames opts \<and>
          \<not> (search_content opts \<and> content_match opts (read_lines (bytes f))) \<and>
          list_ex (found opts (spec_basename filename)) (keywords_arr opts)
            \<longrightarrow> fst (search_file fs filename opts st) \<and>
                total_matches (stats (snd (search_file fs filename opts st))) =
                  total_matches (stats st) + 1 \<and>
                files_matched (stats (snd (search_file fs filename opts st))) =
                  files_matched (stats st) + 1 \<and>
                files_searched (stats (snd (search_file fs filename opts st))) =
                  files_searched (stats st) + 1 \<and>
                stdout (snd (search_file fs filename opts st)) =
                  stdout st @ (if count_only opts then [] else [filename_record filename])) \<and>
         (search_filenames opts \<and>
          \<not> (search_content opts \<and> content_match opts (read_lines (bytes f))) \<and>
          \<not> list_ex (found opts (spec_basename filename)) (keywords_arr opts)
            \<longrightarrow> search_file fs filename opts st = (False, searched_state f st))"
proof -
  let ?lines = "read_lines (bytes f)"
  note sf = search_file_searched [OF assms, of st]
  have content: "search_file fs filename opts st =
        (True,
         inc_files_matched
           (if only_matching_files opts then inc_total_matches (searched_state f st)
            else scan_lines opts filename 0 ?lines (searched_state f st))) \<and>
      total_matches (stats (snd (search_file fs filename opts st))) =
        total_matches (stats st) +
          (if only_matching_files opts then 1 else int (total_hits opts ?lines)) \<and>
      files_matched (stats (snd (search_file fs filename opts st))) =
        files_matched (stats st) + 1 \<and>
      (length ?lines \<le> 2147483647
         \<longrightarrow> stdout (snd (search_file fs filename opts st)) =
             stdout st @
               (if count_only opts \<or> only_matching_files opts then []
                else line_records opts filename 0 ?lines))"
    if cm: "search_content opts \<and> content_match opts ?lines"
  proof -
    have out: "stdout (scan_lines opts filename 0 ?lines (searched_state f st)) =
        stdout st @ (if count_only opts then [] else line_records opts filename 0 ?lines)"
      if "length ?lines \<le> 2147483647"
      using that scan_lines_stdout [of 0 ?lines opts filename "searched_state f st"]
      by (simp add: searched_state_fields)
    from cm out show ?thesis
      by (simp add: sf scan_lines_total_matches scan_lines_stats searched_state_fields
          inc_files_matched_def inc_total_matches_def)
  qed
  have off: "search_file fs filename opts st = (False, searched_state f st)"
    if "\<not> search_filenames opts" "\<not> (search_content opts \<and> content_match opts ?lines)"
    using that by (simp add: sf)
  have name: "fst (search_file fs filename opts st) \<and>
      total_matches (stats (snd (search_file fs filename opts st))) =
        total_matches (stats st) + 1 \<and>
      files_matched (stats (snd (search_file fs filename opts st))) =
        files_matched (stats st) + 1 \<and>
      files_searched (stats (snd (search_file fs filename opts st))) =
        files_searched (stats st) + 1 \<and>
      stdout (snd (search_file fs filename opts st)) =
        stdout st @ (if count_only opts then [] else [filename_record filename])"
    if "search_filenames opts" "\<not> (search_content opts \<and> content_match opts ?lines)"
      "list_ex (found opts (spec_basename filename)) (keywords_arr opts)"
    using that
    by (auto simp: sf searched_state_fields print_filename_match_def printf_def
        inc_files_matched_def inc_total_matches_def)
  have noname: "search_file fs filename opts st = (False, searched_state f st)"
    if "\<not> (search_content opts \<and> content_match opts ?lines)"
      "\<not> list_ex (found opts (spec_basename filename)) (keywords_arr opts)"
    using that by (simp add: sf)
  from content off name noname show ?thesis by blast
qed


theorem filename_search_witness:
  "fopen tree_fs ''./a.txt'' =
     Some \<lparr>fstat_ok = True, st_size = 7, bytes = ''foo'' @ [newline] @ ''bar''\<rparr> \<and>
   content_match (init_options\<lparr>keywords_arr := [''a'']\<rparr>)
     (read_lines (''foo'' @ [newline] @ ''bar'')) \<and>
   list_ex (found (init_options\<lparr>keywords_arr := [''a'']\<rparr>) (spec_basename ''./a.txt''))
     [''a''] \<and>
   total_matches (stats (snd (search_file tree_fs ''./a.txt''
     (init_options\<lparr>keywords_arr := [''a'']\<rparr>) fresh_run))) = 1 \<and>
   stdout (snd (search_file tree_fs ''./a.txt''
     (init_options\<lparr>keywords_arr := [''a'']\<rparr>) fresh_run)) =
     [''./a.txt:2:bar'' @ [newline]] \<and>
   \<not> content_match (init_options\<lparr>keywords_arr := [''txt'', ''x'']\<rparr>)
       (read_lines (''foo'' @ [newline] @ ''bar'')) \<and>
   list_ex (found (init_options\<lparr>keywords_arr := [''txt'', ''x'']\<rparr>)
     (spec_basename ''./a.txt'')) [''txt'', ''x''] \<and>
   search_file tree_fs ''./a.txt''
     (init_options\<lparr>keywords_arr := [''txt'', ''x''], search_filenames := False\<rparr>) fresh_run =
     (False,
      searched_state \<lparr>fstat_ok = True, st_size = 7, bytes = ''foo'' @ [newline] @ ''bar''\<rparr>
        fresh_run) \<and>
   fst (search_file tree_fs ''./a.txt'' (init_options\<lparr>keywords_arr := [''txt'', ''x'']\<rparr>)
     fresh_run) \<and>
   total_matches (stats (snd (search_file tree_fs ''./a.txt''
     (init_options\<lparr>keywords_arr := [''txt'', ''x'']\<rparr>) fresh_run))) = 1 \<and>
   files_matched (stats (snd (search_file tree_fs ''./a.txt''
     (init_options\<lparr>keywords_arr := [''txt'', ''x'']\<rparr>) fresh_run))) = 1 \<and>
   stdout (snd (search_file tree_fs ''./a.txt''
     (init_options\<lparr>keywords_arr := [''txt'', ''x'']\<rparr>) fresh_run)) =
     [''Filename match: ./a.txt'' @ [newline]] \<and>
   \<not> list_ex (found (init_options\<lparr>keywords_arr := [''zzz'']\<rparr>)
       (spec_basename ''./a.txt'')) [''zzz''] \<and>
   search_file tree_fs ''./a.txt'' (init_options\<lparr>keywords_arr := [''zzz'']\<rparr>) fresh_run =
     (False,
      searched_state \<lparr>fstat_ok = True, st_size = 7, bytes = ''foo'' @ [newline] @ ''bar''\<rparr>
        fresh_run)"
proof -
  let ?f = "\<lparr>fstat_ok = True, st_size = 7, bytes = ''foo'' @ [newline] @ ''bar''\<rparr>"
  let ?a = "init_options\<lparr>keywords_arr := [''a'']\<rparr>"
  let ?t = "init_options\<lparr>keywords_arr := [''txt'', ''x'']\<rparr>"
  let ?u = "init_options\<lparr>keywords_arr := [''txt'', ''x''], search_filenames := False\<rparr>"
  let ?z = "init_options\<lparr>keywords_arr := [''zzz'']\<rparr>"
  have lines: "read_lines (''foo'' @ [newline] @ ''bar'') = [''foo'' @ [newline], ''bar'']"
    by (simp add: read_lines.simps MAX_LINE_def newline_def)
  have o: "fopen tree_fs ''./a.txt'' = Some ?f"
    by (simp add: tree_fs_def)
  have s: "\<not> size_rejected ?a ?f" "\<not> size_rejected ?t ?f" "\<not> size_rejected ?u ?f"
    "\<not> size_rejected ?z ?f"
    by (simp_all add: size_rejected_def init_options_def)
  have p: "\<not> pattern_rejected ?a ''./a.txt''" "\<not> pattern_rejected ?t ''./a.txt''"
    "\<not> pattern_rejected ?u ''./a.txt''" "\<not> pattern_rejected ?z ''./a.txt''"
    by (simp_all add: pattern_rejected_def init_options_def)
  have flags: "search_content ?a" "\<not> only_matching_files ?a" "\<not> count_only ?a"
    "search_filenames ?t" "\<not> count_only ?t" "\<not> search_filenames ?u" "search_filenames ?z"
    "keywords_arr ?a = [''a'']" "keywords_arr ?t = [''txt'', ''x'']"
    "keywords_arr ?u = [''txt'', ''x'']" "keywords_arr ?z = [''zzz'']"
    by (simp_all add: init_options_def)
  have cm: "content_match ?a (read_lines (''foo'' @ [newline] @ ''bar''))"
    "\<not> content_match ?t (read_lines (''foo'' @ [newline] @ ''bar''))"
    "\<not> content_match ?u (read_lines (''foo'' @ [newline] @ ''bar''))"
    "\<not> content_match ?z (read_lines (''foo'' @ [newline] @ ''bar''))"
    unfolding lines
    by (simp_all add: content_match_def chomp_def c_str_def newline_def found_def
        init_options_def)
  have fm: "list_ex (found ?a (spec_basename ''./a.txt'')) [''a'']"
    "list_ex (found ?t (spec_basename ''./a.txt'')) [''txt'', ''x'']"
    "\<not> list_ex (found ?z (spec_basename ''./a.txt'')) [''zzz'']"
    by (simp_all add: spec_basename_def found_def init_options_def)
  have len: "length (read_lines (''foo'' @ [newline] @ ''bar'')) \<le> 2147483647"
    unfolding lines by simp
  have hits: "total_hits ?a (read_lines (''foo'' @ [newline] @ ''bar'')) = 1"
    unfolding lines
    by (simp add: total_hits_def chomp_def c_str_def newline_def line_hits_def found_def
        init_options_def)
  have recs: "line_records ?a ''./a.txt'' 0 (read_lines (''foo'' @ [newline] @ ''bar'')) =
      [''./a.txt:2:bar'' @ [newline]]"
    unfolding lines
    by (simp add: chomp_def c_str_def newline_def line_hits_def found_def
        content_record_def init_options_def string_of_int_def string_of_nat.simps digit_def)
  have zero: "total_matches (stats fresh_run) = 0" "files_matched (stats fresh_run) = 0"
    "stdout fresh_run = []"
    by (simp_all add: fresh_run_def)
  have name: "filename_record ''./a.txt'' = ''Filename match: ./a.txt'' @ [newline]"
    by (simp add: filename_record_def)
  have cmf: "search_content ?a \<and> content_match ?a (read_lines (bytes ?f))"
    using flags(1) cm(1) by simp
  from filename_search [OF o s(1) p(1), of fresh_run] cmf
  have a1: "total_matches (stats (snd (search_file tree_fs ''./a.txt'' ?a fresh_run))) =
      total_matches (stats fresh_run) +
        (if only_matching_files ?a then 1 else int (total_hits ?a (read_lines (bytes ?f))))"
    and a2: "length (read_lines (bytes ?f)) \<le> 2147483647 \<longrightarrow>
      stdout (snd (search_file tree_fs ''./a.txt'' ?a fresh_run)) =
        stdout fresh_run @
          (if count_only ?a \<or> only_matching_files ?a then []
           else line_records ?a ''./a.txt'' 0 (read_lines (bytes ?f)))"
    by blast+
  from a1 a2
  have a: "total_matches (stats (snd (search_file tree_fs ''./a.txt'' ?a fresh_run))) = 1 \<and>
      stdout (snd (search_file tree_fs ''./a.txt'' ?a fresh_run)) =
        [''./a.txt:2:bar'' @ [newline]]"
    using flags len hits recs zero by simp
  from filename_search [OF o s(3) p(3), of fresh_run]
  have u: "search_file tree_fs ''./a.txt'' ?u fresh_run = (False, searched_state ?f fresh_run)"
    using flags cm(3) by simp
  from filename_search [OF o s(2) p(2), of fresh_run]
  have t: "fst (search_file tree_fs ''./a.txt'' ?t fresh_run) \<and>
      total_matches (stats (snd (search_file tree_fs ''./a.txt'' ?t fresh_run))) = 1 \<and>
      files_matched (stats (snd (search_file tree_fs ''./a.txt'' ?t fresh_run))) = 1 \<and>
      stdout (snd (search_file tree_fs ''./a.txt'' ?t fresh_run)) =
        [''Filename match: ./a.txt'' @ [newline]]"
    using flags cm(2) fm(2) zero name by simp
  from filename_search [OF o s(4) p(4), of fresh_run]
  have z: "search_file tree_fs ''./a.txt'' ?z fresh_run = (False, searched_state ?f fresh_run)"
    using flags cm(4) fm(3) by simp
  from o cm(1,2) fm a u t z show ?thesis
    by simp
qed

text \<open>
  C5. With a non-negative \<open>max_depth\<close>, a call of \<open>search_directory\<close> at a depth
  greater than \<open>max_depth\<close> returns the state unchanged, whatever the file system
  holds. With \<open>max_depth = 0\<close>, the call at depth 0 scans the regular files listed
  in the start directory, in order, and enters no subdirectory.
\<close>

theorem depth_limit:
  "(max_depth opts \<ge> 0 \<and> depth > max_depth opts
      \<longrightarrow> search_directory fs path depth opts st = st) \<and>
   (max_depth opts = 0
      \<longrightarrow> search_directory fs (Some start) 0 opts st =
          (case opendir fs start of
             None \<Rightarrow> st
           | Some names \<Rightarrow> scan_regular_files fs start opts names st))"
proof -
  have deep: "search_directory fs path depth opts st = st"
    if "max_depth opts \<ge> 0" and "depth > max_depth opts"
    using that by (rule search_directory_too_deep)
  have flat: "search_directory fs (Some start) 0 opts st =
      (case opendir fs start of
         None \<Rightarrow> st
       | Some names \<Rightarrow> scan_regular_files fs start opts names st)"
    if zero: "max_depth opts = 0"
  proof (cases "opendir fs start")
    case None
    with zero show ?thesis by simp
  next
    case (Some names)
    from zero have "walk_entries fs start 0 opts names st =
        scan_regular_files fs start opts names st"
      by (rule walk_entries_depth_zero)
    with zero Some show ?thesis by simp
  qed
  from deep flat show ?thesis by blast
qed

theorem depth_limit_witness:
  "max_depth (init_options\<lparr>keywords_arr := [''foo''], max_depth := 0\<rparr>) = 0 \<and>
   search_directory tree_fs (Some ''./b'') 1
     (init_options\<lparr>keywords_arr := [''foo''], max_depth := 0\<rparr>) fresh_run = fresh_run \<and>
   search_directory tree_fs (Some ''.'') 0
     (init_options\<lparr>keywords_arr := [''foo''], max_depth := 0\<rparr>) fresh_run =
     \<lparr>stats = \<lparr>files_searched = 1, files_matched = 1, total_matches = 1, total_size = 7,
               start_time = 0\<rparr>,
      stdout = [''./a.txt:1:foo'' @ [newline]]\<rparr>"
proof -
  let ?o = "init_options\<lparr>keywords_arr := [''foo''], max_depth := 0\<rparr>"
  have m: "max_depth ?o = 0"
    by (simp add: init_options_def)
  have flat: "(case opendir tree_fs ''.'' of
         None \<Rightarrow> fresh_run
       | Some names \<Rightarrow> scan_regular_files tree_fs ''.'' ?o names fresh_run) =
      \<lparr>stats = \<lparr>files_searched = 1, files_matched = 1, total_matches = 1, total_size = 7,
                start_time = 0\<rparr>,
       stdout = [''./a.txt:1:foo'' @ [newline]]\<rparr>"
    by (simp add: tree_fs_def entry_type_def entry_path_def MAX_PATH_def search_file_def
        scan_file_def init_options_def fresh_run_def read_lines.simps MAX_LINE_def newline_def
        chomp_def c_str_def found_def basename_def inc_files_matched_def
        inc_total_matches_def inc_files_searched_def add_total_size_def wrap_long_def
        wrap_int_def printf_def
        content_record_def string_of_int_def string_of_nat.simps digit_def)
  from depth_limit [of ?o 1 tree_fs "Some ''./b''" fresh_run "''.''"] m flat
  show ?thesis by simp
qed

text \<open>
  C9. The walker classifies an entry by \<open>lstat\<close>, which does not follow links. An
  entry that \<open>lstat\<close> reports as anything but a directory or a regular file (a
  symbolic link, a device, or a failed \<open>lstat\<close>) is skipped: it is neither entered
  nor scanned. A directory is entered only when \<open>recursive\<close> is set, a regular file
  is scanned. What a link points at never matters: two file systems that differ only
  in what opening a non-directory as a directory, or a non-regular entry as a file,
  would give produce the same walk. The walk always ends: \<open>search_directory\<close> is
  a total function, recursing only on strictly longer paths that fit in \<open>MAX_PATH\<close>.
\<close>

theorem links_not_followed:
  "(lstat fs (entry_path path d_name) \<noteq> Some S_IFDIR \<and>
    lstat fs (entry_path path d_name) \<noteq> Some S_IFREG
      \<longrightarrow> walk_entries fs path depth opts (d_name # names) st =
          walk_entries fs path depth opts names st) \<and>
   (entry_type fs path d_name = Some S_IFDIR
      \<longrightarrow> walk_entries fs path depth opts (d_name # names) st =
          walk_entries fs path depth opts names
            (if recursive opts
             then search_directory fs (Some (entry_path path d_name)) (depth + 1) opts st
             else st)) \<and>
   (entry_type fs path d_name = Some S_IFREG
      \<longrightarrow> walk_entries fs path depth opts (d_name # names) st =
          walk_entries fs path depth opts names
            (snd (search_file fs (entry_path path d_name) opts st))) \<and>
   (same_without_links fs fs' \<and> opendir fs' start = opendir fs start
      \<longrightarrow> search_directory fs' (Some start) depth opts st =
          search_directory fs (Some start) depth opts st)"
proof -
  have skip: "walk_entries fs path depth opts (d_name # names) st =
      walk_entries fs path depth opts names st"
    if "lstat fs (entry_path path d_name) \<noteq> Some S_IFDIR"
      and "lstat fs (entry_path path d_name) \<noteq> Some S_IFREG"
  proof -
    from that have "entry_type fs path d_name \<noteq> Some S_IFDIR"
      and "entry_type fs path d_name \<noteq> Some S_IFREG"
      by (auto simp: entry_type_def)
    then show ?thesis
      by (simp only: walk_entries_step split: option.splits file_type.splits) simp
  qed
  have dir: "walk_entries fs path depth opts (d_name # names) st =
      walk_entries fs path depth opts names
        (if recursive opts
         then search_directory fs (Some (entry_path path d_name)) (depth + 1) opts st
         else st)"
    if "entry_type fs path d_name = Some S_IFDIR"
    using that by (simp only: walk_entries_step option.case file_type.case)
  have reg: "walk_entries fs path depth opts (d_name # names) st =
      walk_entries fs path depth opts names
        (snd (search_file fs (entry_path path d_name) opts st))"
    if "entry_type fs path d_name = Some S_IFREG"
    using that by (simp only: walk_entries_step option.case file_type.case)
  from skip dir reg same_without_links_search_directory [of fs fs' start depth opts st]
  show ?thesis by blast
qed

theorem links_not_followed_witness:
  "lstat tree_fs (entry_path ''./b'' ''up'') = Some S_IFLNK \<and>
   opendir tree_fs (entry_path ''./b'' ''up'') = opendir tree_fs ''.'' \<and>
   walk_entries tree_fs ''./b'' 1 (init_options\<lparr>keywords_arr := [''foo'']\<rparr>)
     [''up'', ''c.txt''] fresh_run =
   walk_entries tree_fs ''./b'' 1 (init_options\<lparr>keywords_arr := [''foo'']\<rparr>)
     [''c.txt''] fresh_run \<and>
   same_without_links tree_fs dangling_fs \<and>
   opendir dangling_fs ''.'' = opendir tree_fs ''.'' \<and>
   search_directory dangling_fs (Some ''.'') 0 (init_options\<lparr>keywords_arr := [''foo'']\<rparr>)
     fresh_run =
   search_directory tree_fs (Some ''.'') 0 (init_options\<lparr>keywords_arr := [''foo'']\<rparr>)
     fresh_run \<and>
   search_directory tree_fs (Some ''.'') 0 (init_options\<lparr>keywords_arr := [''foo'']\<rparr>)
     fresh_run =
     \<lparr>stats = \<lparr>files_searched = 2, files_matched = 2, total_matches = 2, total_size = 14,
               start_time = 0\<rparr>,
      stdout = [''./a.txt:1:foo'' @ [newline], ''./b/c.txt:1:foo foo'' @ [newline]]\<rparr>"
proof -
  let ?o = "init_options\<lparr>keywords_arr := [''foo'']\<rparr>"
  have 1: "lstat tree_fs (entry_path ''./b'' ''up'') = Some S_IFLNK"
    by (simp add: tree_fs_def entry_path_def)
  have 2: "opendir tree_fs (entry_path ''./b'' ''up'') = opendir tree_fs ''.''"
    by (simp add: tree_fs_def entry_path_def)
  have 3: "same_without_links tree_fs dangling_fs"
    by (simp add: same_without_links_def tree_fs_def dangling_fs_def)
  have 4: "opendir dangling_fs ''.'' = opendir tree_fs ''.''"
    by (simp add: tree_fs_def dangling_fs_def)
  have 5: "search_directory tree_fs (Some ''.'') 0 ?o fresh_run =
     \<lparr>stats = \<lparr>files_searched = 2, files_matched = 2, total_matches = 2, total_size = 14,
               start_time = 0\<rparr>,
      stdout = [''./a.txt:1:foo'' @ [newline], ''./b/c.txt:1:foo foo'' @ [newline]]\<rparr>"
    by (simp add: tree_fs_def MAX_PATH_def search_file_def
        scan_file_def init_options_def fresh_run_def read_lines.simps MAX_LINE_def newline_def
        chomp_def c_str_def found_def basename_def inc_files_matched_def
        inc_total_matches_def inc_files_searched_def add_total_size_def wrap_long_def
        wrap_int_def printf_def
        content_record_def string_of_int_def string_of_nat.simps digit_def)
  from links_not_followed [of tree_fs "''./b''" "''up''" 1 ?o "[''c.txt'']" fresh_run
      dangling_fs "''.''"] 1
  have a: "walk_entries tree_fs ''./b'' 1 ?o [''up'', ''c.txt''] fresh_run =
      walk_entries tree_fs ''./b'' 1 ?o [''c.txt''] fresh_run"
    by simp
  from links_not_followed [of tree_fs "''./b''" "''up''" 0 ?o "[''c.txt'']" fresh_run
      dangling_fs "''.''"] 3 4
  have b: "search_directory dangling_fs (Some ''.'') 0 ?o fresh_run =
      search_directory tree_fs (Some ''.'') 0 ?o fresh_run"
    by simp
  from a b 1 2 3 4 5 show ?thesis by simp
qed

end
